theory Spec2Isabelle
  imports Complex_Main "HOL-Library.Char_ord" "HOL-Library.List_Lexorder"
    "HOL-Library.AList" "HOL-Library.Sublist" "HOL-Library.Multiset"
begin

section \<open>Strings, dictionaries and errors of the miner\<close>

text \<open>
  The miner (\<^verbatim>\<open>miner.py\<close>) keeps every itemset as a string key: the items joined by one
  space. Strings are character lists, compared lexicographically by character code, as
  Python compares \<^verbatim>\<open>str\<close> values. A dictionary is an association list in insertion
  order; a well-formed dictionary has pairwise distinct keys. Every exception the code
  can raise is a value of \<open>error\<close>.
\<close>

datatype error = IndexError | KeyError | ZeroDivisionError

type_synonym table = "(string \<times> int) list"

definition FREQ_THRES :: int where
  "FREQ_THRES = 100"

text \<open>\<^verbatim>\<open>str.isspace\<close> on the characters below 256.\<close>

definition isspace :: "char \<Rightarrow> bool" where
  "isspace c = ((of_char c :: nat) \<in> {9, 10, 11, 12, 13, 28, 29, 30, 31, 32, 133, 160})"

text \<open>
  \<^verbatim>\<open>s.split()\<close> without a separator: runs of whitespace separate the words, and no empty
  word is returned. The accumulator holds the current word, reversed.
\<close>

fun split_acc :: "string \<Rightarrow> string \<Rightarrow> string list" where
  "split_acc [] w = (if w = [] then [] else [rev w])"
| "split_acc (c # cs) w =
     (if isspace c then (if w = [] then split_acc cs [] else rev w # split_acc cs [])
      else split_acc cs (c # w))"

definition str_split :: "string \<Rightarrow> string list" where
  "str_split s = split_acc s []"

text \<open>\<^verbatim>\<open>" ".join(xs)\<close>.\<close>

fun str_join :: "string list \<Rightarrow> string" where
  "str_join [] = []"
| "str_join [x] = x"
| "str_join (x # y # ys) = x @ CHR '' '' # str_join (y # ys)"

text \<open>\<^verbatim>\<open>d[k]\<close> raises \<^verbatim>\<open>KeyError\<close> on a missing key.\<close>

definition dict_get :: "table \<Rightarrow> string \<Rightarrow> error + int" where
  "dict_get d k = (case map_of d k of None \<Rightarrow> Inl KeyError | Some v \<Rightarrow> Inr v)"

text \<open>\<^verbatim>\<open>xs[i]\<close> on a list or tuple: a negative index counts from the end.\<close>

definition list_get :: "'a list \<Rightarrow> int \<Rightarrow> error + 'a" where
  "list_get xs i =
     (if 0 \<le> i \<and> i < int (length xs) then Inr (xs ! nat i)
      else if i < 0 \<and> - int (length xs) \<le> i then Inr (xs ! nat (int (length xs) + i))
      else Inl IndexError)"

text \<open>
  \<^verbatim>\<open>itertools.combinations(xs, r)\<close>: the subsequences of length \<open>r\<close>, in the
  lexicographic order of their positions.
\<close>

fun combinations :: "'a list \<Rightarrow> nat \<Rightarrow> 'a list list" where
  "combinations xs 0 = [[]]"
| "combinations [] (Suc r) = []"
| "combinations (x # xs) (Suc r) = map ((#) x) (combinations xs r) @ combinations xs (Suc r)"

section \<open>The pruner\<close>

text \<open>
  \<^verbatim>\<open>{item: candidates[item] for item in candidates if candidates[item] >= FREQ_THRES}\<close>:
  the comprehension walks the entries of \<^verbatim>\<open>candidates\<close> in order and builds a new
  dictionary; it assigns nothing in \<^verbatim>\<open>candidates\<close>.
\<close>

definition prune :: "table \<Rightarrow> table" where
  "prune candidates = [(item, v) \<leftarrow> candidates. FREQ_THRES \<le> v]"

section \<open>The candidate generator\<close>

text \<open>
  The \<^verbatim>\<open>while\<close> loop of \<^verbatim>\<open>make_candidates\<close> that measures the common prefix.
  \<^verbatim>\<open>prefix = len(outer_items) - 1\<close> is \<open>-1\<close> for an empty key, hence an \<open>int\<close>.
\<close>

function prefix_scan :: "int \<Rightarrow> string list \<Rightarrow> string list \<Rightarrow> nat \<Rightarrow> nat" where
  "prefix_scan prefix_len outer_items inner_items i =
     (if int i < prefix_len \<and> i < length outer_items \<and> i < length inner_items
         \<and> outer_items ! i = inner_items ! i
      then prefix_scan prefix_len outer_items inner_items (i + 1) else i)"
  by pat_completeness auto
termination
  by (relation "measure (\<lambda>(prefix_len, outer_items, inner_items, i). length outer_items - i)") auto

declare prefix_scan.simps [simp del]

text \<open>The body of the inner \<^verbatim>\<open>for\<close> loop, for one key \<^verbatim>\<open>freq_list[inner]\<close>.\<close>

definition inner_step :: "string list \<Rightarrow> string \<Rightarrow> table \<Rightarrow> error + table" where
  "inner_step outer_items inner_key candidates =
     (let inner_items = str_split inner_key;
          prefix_len = int (length outer_items) - 1;
          i = prefix_scan prefix_len outer_items inner_items 0
      in if int i = prefix_len
         then (case list_get inner_items prefix_len of
                 Inl e \<Rightarrow> Inl e
               | Inr item \<Rightarrow> Inr (AList.update (str_join (outer_items @ [item])) 0 candidates))
         else Inr candidates)"

text \<open>
  \<^verbatim>\<open>for inner in range(outer, len(freq_list))\<close> walks the suffix of \<^verbatim>\<open>freq_list\<close> that
  starts at position \<^verbatim>\<open>outer\<close>; \<^verbatim>\<open>for outer in range(0, len(freq_list))\<close> walks all
  suffixes. The first key of the suffix is \<^verbatim>\<open>freq_list[outer]\<close> itself.
\<close>

fun inner_loop :: "string list \<Rightarrow> string list \<Rightarrow> table \<Rightarrow> error + table" where
  "inner_loop outer_items [] candidates = Inr candidates"
| "inner_loop outer_items (k # ks) candidates =
     (case inner_step outer_items k candidates of
        Inl e \<Rightarrow> Inl e
      | Inr candidates' \<Rightarrow> inner_loop outer_items ks candidates')"

fun outer_loop :: "string list \<Rightarrow> table \<Rightarrow> error + table" where
  "outer_loop [] candidates = Inr candidates"
| "outer_loop (k # ks) candidates =
     (case inner_loop (str_split k) (k # ks) candidates of
        Inl e \<Rightarrow> Inl e
      | Inr candidates' \<Rightarrow> outer_loop ks candidates')"

definition make_candidates :: "table \<Rightarrow> error + table" where
  "make_candidates prev_frequents = outer_loop (sort (map fst prev_frequents)) []"

section \<open>Rules and their comparison\<close>

record Rule =
  left :: "string list"
  right :: "string list"
  all_freq :: int
  left_freq :: int

text \<open>
  \<^verbatim>\<open>confidence\<close> is \<^verbatim>\<open>self.all_freq/self.left_freq\<close>, which raises on a zero divisor.
  The quotient is kept exact, as a rational number.
\<close>

definition confidence :: "Rule \<Rightarrow> error + rat" where
  "confidence r =
     (if left_freq r = 0 then Inl ZeroDivisionError
      else Inr (of_int (all_freq r) / of_int (left_freq r)))"

text \<open>\<^verbatim>\<open>Rule._cmp\<close>.\<close>

definition Rule_cmp :: "Rule \<Rightarrow> Rule \<Rightarrow> error + int" where
  "Rule_cmp self other =
     (case confidence self of
        Inl e \<Rightarrow> Inl e
      | Inr conf_self \<Rightarrow>
          (case confidence other of
             Inl e \<Rightarrow> Inl e
           | Inr conf_other \<Rightarrow>
               (let conf_difference = conf_self - conf_other
                in if conf_difference < 0 then Inr (- 1)
                   else if conf_difference > 0 then Inr 1
                   else (let self_string = str_join (left self);
                             other_string = str_join (left other)
                         in if self_string > other_string then Inr (- 1)
                            else if self_string < other_string then Inr 1
                            else Inr 0))))"

text \<open>\<^verbatim>\<open>__lt__\<close>, \<^verbatim>\<open>__le__\<close> and \<^verbatim>\<open>__eq__\<close>.\<close>

definition Rule_lt :: "Rule \<Rightarrow> Rule \<Rightarrow> error + bool" where
  "Rule_lt self other = (case Rule_cmp self other of Inl e \<Rightarrow> Inl e | Inr c \<Rightarrow> Inr (c < 0))"


definition Rule_eq :: "Rule \<Rightarrow> Rule \<Rightarrow> error + bool" where
  "Rule_eq self other = (case Rule_cmp self other of Inl e \<Rightarrow> Inl e | Inr c \<Rightarrow> Inr (c = 0))"

text \<open>
  \<^verbatim>\<open>sorted(rules, reverse=True)\<close>. Python's sort is stable and compares with \<^verbatim>\<open>__lt__\<close>
  only; with \<^verbatim>\<open>reverse=True\<close> it reverses the list, sorts it ascending and reverses the
  result. The ascending stable sort is written as an insertion sort: each element is
  put behind the elements that are less than it, and before the first one that is not.
\<close>

fun insort_rule :: "Rule \<Rightarrow> Rule list \<Rightarrow> error + Rule list" where
  "insort_rule x [] = Inr [x]"
| "insort_rule x (y # ys) =
     (case Rule_lt y x of
        Inl e \<Rightarrow> Inl e
      | Inr True \<Rightarrow> (case insort_rule x ys of Inl e \<Rightarrow> Inl e | Inr zs \<Rightarrow> Inr (y # zs))
      | Inr False \<Rightarrow> Inr (x # y # ys))"

fun sort_rules :: "Rule list \<Rightarrow> error + Rule list" where
  "sort_rules [] = Inr []"
| "sort_rules (x # xs) =
     (case sort_rules xs of Inl e \<Rightarrow> Inl e | Inr ys \<Rightarrow> insort_rule x ys)"

definition sorted_reverse :: "Rule list \<Rightarrow> error + Rule list" where
  "sorted_reverse rules =
     (case sort_rules (rev rules) of Inl e \<Rightarrow> Inl e | Inr ys \<Rightarrow> Inr (rev ys))"

section \<open>The rule engine\<close>

text \<open>
  The body of the loop over \<^verbatim>\<open>combinations\<close> in \<^verbatim>\<open>make_rules\<close>: the complement of the
  combination, then the look-up \<^verbatim>\<open>args[len(combination) - 1][" ".join(combination)]\<close>.
\<close>

definition rule_of_combination ::
  "table list \<Rightarrow> string list \<Rightarrow> int \<Rightarrow> string list \<Rightarrow> error + Rule" where
  "rule_of_combination args items freq combination =
     (let other = [item \<leftarrow> items. item \<notin> set combination]
      in case list_get args (int (length combination) - 1) of
           Inl e \<Rightarrow> Inl e
         | Inr level \<Rightarrow>
             (case dict_get level (str_join combination) of
                Inl e \<Rightarrow> Inl e
              | Inr lf \<Rightarrow>
                  Inr \<lparr>left = combination, right = other, all_freq = freq, left_freq = lf\<rparr>))"

fun append_rules ::
  "table list \<Rightarrow> string list \<Rightarrow> int \<Rightarrow> string list list \<Rightarrow> Rule list \<Rightarrow> error + Rule list" where
  "append_rules args items freq [] level_rules = Inr level_rules"
| "append_rules args items freq (c # cs) level_rules =
     (case rule_of_combination args items freq c of
        Inl e \<Rightarrow> Inl e
      | Inr r \<Rightarrow> append_rules args items freq cs (level_rules @ [r]))"

text \<open>
  \<^verbatim>\<open>combinations\<close> collects the combinations of every size from 1 to
  \<^verbatim>\<open>len(items) - 1\<close>.
\<close>

definition proper_combinations :: "string list \<Rightarrow> string list list" where
  "proper_combinations items = concat (map (combinations items) [1..<length items])"

fun rules_loop :: "table \<Rightarrow> table list \<Rightarrow> Rule list \<Rightarrow> error + Rule list" where
  "rules_loop [] args level_rules = Inr level_rules"
| "rules_loop ((itemset, freq) # rest) args level_rules =
     (let items = str_split itemset
      in case append_rules args items freq (proper_combinations items) level_rules of
           Inl e \<Rightarrow> Inl e
         | Inr level_rules' \<Rightarrow> rules_loop rest args level_rules')"

definition make_rules :: "table \<Rightarrow> table list \<Rightarrow> error + Rule list" where
  "make_rules top_level args = rules_loop top_level args []"

section \<open>The mining pipeline\<close>

text \<open>
  The counting of the single items: \<^verbatim>\<open>if item not in singles: singles[item] = 0\<close>,
  then \<^verbatim>\<open>singles[item] += 1\<close>.
\<close>

definition count_item :: "string \<Rightarrow> table \<Rightarrow> table" where
  "count_item item singles =
     (let singles' = (if item \<notin> fst ` set singles then AList.update item 0 singles else singles)
      in case map_of singles' item of
           None \<Rightarrow> singles'
         | Some v \<Rightarrow> AList.update item (v + 1) singles')"

definition count_singles :: "string list list \<Rightarrow> table" where
  "count_singles lines = fold (\<lambda>line singles. fold count_item line singles) lines []"

text \<open>
  The counting loop of a level,
  \<^verbatim>\<open>for line in lines: for combination in itertools.combinations(line, k):\<close>
  \<^verbatim>\<open>if " ".join(combination) in pairs: pairs[" ".join(combination)] += 1\<close>
  (with \<^verbatim>\<open>triples\<close> and \<open>k = 3\<close> for the next level). \<^verbatim>\<open>lines\<close> is read, the candidate
  table is updated in place. The state holds both.
\<close>

record counting =
  lines :: "string list list"
  candidates :: table

definition count_combination :: "string list \<Rightarrow> table \<Rightarrow> table" where
  "count_combination combination t =
     (let key = str_join combination
      in case map_of t key of None \<Rightarrow> t | Some v \<Rightarrow> AList.update key (v + 1) t)"

definition count_line :: "nat \<Rightarrow> string list \<Rightarrow> table \<Rightarrow> table" where
  "count_line k line t = fold count_combination (combinations line k) t"

definition counting_loop :: "nat \<Rightarrow> counting \<Rightarrow> counting" where
  "counting_loop k st = st\<lparr>candidates := fold (count_line k) (lines st) (candidates st)\<rparr>"

text \<open>
  The mining part of the script, from the counting of the singles to the ranking of the
  triple rules; \<open>mined\<close> holds the tables and rule lists it has built when it starts to
  write the log. An exception anywhere ends the run (the script catches it and prints
  it); here it is the result \<open>Inl\<close>.
\<close>

record mined =
  singles :: table
  pairs :: table
  pair_rules :: "Rule list"
  triples :: table
  triple_rules :: "Rule list"

definition mine :: "string list list \<Rightarrow> error + mined" where
  "mine ls =
     (let singles1 = prune (count_singles ls)
      in case make_candidates singles1 of
           Inl e \<Rightarrow> Inl e
         | Inr pairs0 \<Rightarrow>
      (let pairs1 = prune (candidates (counting_loop 2 \<lparr>lines = ls, candidates = pairs0\<rparr>))
       in case make_rules pairs1 [singles1] of
            Inl e \<Rightarrow> Inl e
          | Inr rules2 \<Rightarrow>
       (case sorted_reverse rules2 of
          Inl e \<Rightarrow> Inl e
        | Inr pair_rules1 \<Rightarrow>
        (case make_candidates pairs1 of
           Inl e \<Rightarrow> Inl e
         | Inr triples0 \<Rightarrow>
         (let triples1 = prune (candidates (counting_loop 3 \<lparr>lines = ls, candidates = triples0\<rparr>))
          in case make_rules triples1 [singles1, pairs1] of
               Inl e \<Rightarrow> Inl e
             | Inr rules3 \<Rightarrow>
          (case sorted_reverse rules3 of
             Inl e \<Rightarrow> Inl e
           | Inr triple_rules1 \<Rightarrow>
               Inr \<lparr>singles = singles1, pairs = pairs1, pair_rules = pair_rules1,
                    triples = triples1, triple_rules = triple_rules1\<rparr>))))))"

text \<open>The reading of the browsing file: each line is split into its items and sorted.\<close>

definition read_lines :: "string list \<Rightarrow> string list list" where
  "read_lines raw = map (\<lambda>line. sort (str_split line)) raw"

section \<open>Notions used to state the results\<close>

text \<open>
  The exact quotient behind \<open>confidence\<close>, and the strict order that \<open>Rule_lt\<close> decides
  on rules whose \<open>left_freq\<close> is not zero.
\<close>

definition conf :: "Rule \<Rightarrow> rat" where
  "conf r = of_int (all_freq r) / of_int (left_freq r)"

definition rule_less :: "Rule \<Rightarrow> Rule \<Rightarrow> bool" where
  "rule_less a b \<longleftrightarrow>
     conf a < conf b \<or> (conf a = conf b \<and> str_join (left b) < str_join (left a))"

definition rule_equiv :: "Rule \<Rightarrow> Rule \<Rightarrow> bool" where
  "rule_equiv a b \<longleftrightarrow> conf a = conf b \<and> str_join (left a) = str_join (left b)"

text \<open>
  A list is in ascending order for the rule order when no element is less than an
  earlier one; \<open>well_formed\<close> rules have a confidence.
\<close>

definition ascending :: "Rule list \<Rightarrow> bool" where
  "ascending rs = sorted_wrt (\<lambda>x y. \<not> rule_less y x) rs"

definition well_formed :: "Rule list \<Rightarrow> bool" where
  "well_formed rs = list_all (\<lambda>r. left_freq r \<noteq> 0) rs"

text \<open>
  An item is a \<open>token\<close>: a non-empty word without whitespace, as \<open>str_split\<close> returns
  them. \<open>itemset_key k key\<close> says that \<open>key\<close> is the canonical key of an itemset of
  size \<open>k\<close>: its \<open>k\<close> items are strictly increasing (sorted and free of duplicates) and
  \<open>key\<close> is these items joined by single spaces.
\<close>

definition token :: "string \<Rightarrow> bool" where
  "token w \<longleftrightarrow> w \<noteq> [] \<and> list_all (\<lambda>c. \<not> isspace c) w"

definition itemset_key :: "nat \<Rightarrow> string \<Rightarrow> bool" where
  "itemset_key k key \<longleftrightarrow>
     (let items = str_split key
      in length items = k \<and> sorted_wrt (<) items \<and> str_join items = key)"

text \<open>
  A freshly generated candidate table: pairwise distinct keys, every count 0.
  \<open>suffix_pairs\<close> are the pairs of keys that the two nested loops of
  \<open>make_candidates\<close> visit: a key with itself and with every later key.
\<close>

definition zero_table :: "table \<Rightarrow> bool" where
  "zero_table t \<longleftrightarrow> distinct (map fst t) \<and> list_all (\<lambda>p. snd p = 0) t"

fun suffix_pairs :: "string list \<Rightarrow> (string \<times> string) set" where
  "suffix_pairs [] = {}"
| "suffix_pairs (a # rest) = {(a, b) | b. b \<in> set (a # rest)} \<union> suffix_pairs rest"

definition joined :: "string \<Rightarrow> string \<Rightarrow> string" where
  "joined a b = str_join (str_split a @ [last (str_split b)])"

definition joinable :: "string \<Rightarrow> string \<Rightarrow> bool" where
  "joinable a b \<longleftrightarrow> butlast (str_split a) = butlast (str_split b)"

text \<open>
  The support of an itemset in the transaction list: the number of transactions that
  contain every item of the set. \<open>transaction\<close> is a line as the claims assume it:
  strictly increasing items (sorted, free of duplicates).
\<close>

definition support :: "string list list \<Rightarrow> string set \<Rightarrow> nat" where
  "support ls S = length [l \<leftarrow> ls. S \<subseteq> set l]"

definition transaction :: "string list \<Rightarrow> bool" where
  "transaction l \<longleftrightarrow> sorted_wrt (<) l \<and> list_all token l"

definition matches :: "nat \<Rightarrow> string \<Rightarrow> string list \<Rightarrow> nat" where
  "matches k key l = length [c \<leftarrow> combinations l k. str_join c = key]"

text \<open>The count a table holds for a key, 0 when the key is absent.\<close>

definition count_of :: "table \<Rightarrow> string \<Rightarrow> int" where
  "count_of t k = (case map_of t k of None \<Rightarrow> 0 | Some v \<Rightarrow> v)"

text \<open>
  What the pipeline establishes for the pruned table of level \<open>k\<close>: every key is the
  canonical key of an itemset of size \<open>k\<close> and its count is the support of that
  itemset, at least the threshold (\<open>frequent_level\<close>); and every itemset of size \<open>k\<close>
  whose support reaches the threshold has its key in the table (\<open>complete_level\<close>).
\<close>

definition frequent_level :: "nat \<Rightarrow> string list list \<Rightarrow> table \<Rightarrow> bool" where
  "frequent_level k ls t \<longleftrightarrow>
     distinct (map fst t)
     \<and> (\<forall>key v. map_of t key = Some v \<longrightarrow>
           itemset_key k key \<and> v = int (support ls (set (str_split key))) \<and> FREQ_THRES \<le> v)"

definition complete_level :: "nat \<Rightarrow> string list list \<Rightarrow> table \<Rightarrow> bool" where
  "complete_level k ls t \<longleftrightarrow>
     (\<forall>key. itemset_key k key \<and> FREQ_THRES \<le> int (support ls (set (str_split key)))
        \<longrightarrow> key \<in> fst ` set t)"

text \<open>One round of the mining driver: generate the candidates, count them, prune.\<close>

definition next_level :: "nat \<Rightarrow> string list list \<Rightarrow> table \<Rightarrow> error + table" where
  "next_level k ls prev =
     (case make_candidates prev of
        Inl e \<Rightarrow> Inl e
      | Inr t0 \<Rightarrow> Inr (prune (candidates (counting_loop k \<lparr>lines = ls, candidates = t0\<rparr>))))"

text \<open>
  What the pipeline guarantees for a rule built with the earlier tables \<open>args\<close>: its
  frequency reaches the threshold and does not exceed the antecedent's, and the
  antecedent's frequency is the entry that the look-up
  \<^verbatim>\<open>args[len(left) - 1][" ".join(left)]\<close> finds.
\<close>

definition sound_rule :: "table list \<Rightarrow> Rule \<Rightarrow> bool" where
  "sound_rule args r \<longleftrightarrow>
     FREQ_THRES \<le> all_freq r \<and> all_freq r \<le> left_freq r
     \<and> list_get args (int (length (left r)) - 1) = Inr (args ! (length (left r) - 1))
     \<and> dict_get (args ! (length (left r) - 1)) (str_join (left r)) = Inr (left_freq r)"

section \<open>Results about the pruner\<close>

lemma prune_entries: "set (prune t) = {(k, v). (k, v) \<in> set t \<and> FREQ_THRES \<le> v}"
  by (auto simp: prune_def)

lemma prune_keys: "fst ` set (prune t) \<subseteq> fst ` set t"
  by (auto simp: prune_def)

lemma prune_subseq: "subseq (prune t) t"
  by (simp add: prune_def)

lemma prune_distinct: "distinct (map fst t) \<Longrightarrow> distinct (map fst (prune t))"
  by (simp add: prune_def distinct_map_filter)

lemma prune_lookup:
  "distinct (map fst t) \<Longrightarrow>
   map_of (prune t) k =
     (case map_of t k of None \<Rightarrow> None | Some v \<Rightarrow> if FREQ_THRES \<le> v then Some v else None)"
proof (induction t)
  case Nil
  then show ?case by (simp add: prune_def)
next
  case (Cons p t)
  obtain k' v' where p: "p = (k', v')" by (cases p)
  from Cons.prems p have notin: "k' \<notin> fst ` set t" by auto
  have "k' \<notin> fst ` set (prune t)" using notin prune_keys by blast
  then have none: "map_of (prune t) k' = None" by (simp add: map_of_eq_None_iff)
  from Cons have IH: "map_of (prune t) k =
     (case map_of t k of None \<Rightarrow> None | Some v \<Rightarrow> if FREQ_THRES \<le> v then Some v else None)" by simp
  show ?case
  proof (cases "k = k'")
    case True
    then show ?thesis using none p by (simp add: prune_def)
  next
    case False
    then show ?thesis using IH p by (simp add: prune_def)
  qed
qed

text \<open>
  Claim C8 (pruner exactness): \<open>prune\<close> returns exactly the entries of its input whose
  count is at least \<open>FREQ_THRES\<close>, with their counts and in their order; its keys are
  keys of the input, no returned count is below the threshold, a well-formed input
  gives a well-formed output whose look-ups agree with the input's, and the empty
  table gives the empty table. The input is only read: \<open>prune\<close> is a function of it.
\<close>

theorem prune_exact:
  "set (prune t) = {(k, v). (k, v) \<in> set t \<and> FREQ_THRES \<le> v}
   \<and> fst ` set (prune t) \<subseteq> fst ` set t
   \<and> (\<forall>(k, v) \<in> set (prune t). FREQ_THRES \<le> v)
   \<and> subseq (prune t) t
   \<and> (distinct (map fst t) \<longrightarrow>
        distinct (map fst (prune t))
        \<and> (\<forall>k. map_of (prune t) k =
             (case map_of t k of None \<Rightarrow> None
              | Some v \<Rightarrow> if FREQ_THRES \<le> v then Some v else None)))
   \<and> prune [] = []"
  using prune_entries [of t] prune_keys [of t] prune_subseq [of t] prune_distinct [of t]
    prune_lookup [of t]
  by (auto simp: prune_def)

theorem prune_exact_witness:
  "distinct (map fst [(''a'', 100), (''b'', 99), (''c'', 250 :: int)])
   \<and> prune [(''a'', 100), (''b'', 99), (''c'', 250)] = [(''a'', 100), (''c'', 250)]
   \<and> set (prune [(''a'', 100), (''b'', 99), (''c'', 250)])
       = {(k, v). (k, v) \<in> set [(''a'', 100), (''b'', 99), (''c'', 250)] \<and> FREQ_THRES \<le> v}
   \<and> map_of (prune [(''a'', 100), (''b'', 99), (''c'', 250)]) ''b'' = None"
  using prune_exact [of "[(''a'', 100), (''b'', 99), (''c'', 250)]"]
  by (simp add: prune_def FREQ_THRES_def)

section \<open>Results about the rule order\<close>

lemma confidence_conf: "left_freq r \<noteq> 0 \<Longrightarrow> confidence r = Inr (conf r)"
  by (simp add: confidence_def conf_def)

lemma Rule_cmp_value:
  assumes "left_freq a \<noteq> 0" and "left_freq b \<noteq> 0"
  shows "Rule_cmp a b =
     Inr (if rule_less a b then - 1 else if rule_less b a then 1 else 0)"
  using assms
  by (auto simp: Rule_cmp_def confidence_conf rule_less_def Let_def)

lemma Rule_lt_value:
  assumes "left_freq a \<noteq> 0" and "left_freq b \<noteq> 0"
  shows "Rule_lt a b = Inr (rule_less a b)"
  by (simp add: Rule_lt_def Rule_cmp_value [OF assms])

lemma rule_less_equiv_cases:
  "rule_less a b \<or> rule_less b a \<or> rule_equiv a b"
  by (auto simp: rule_less_def rule_equiv_def)

lemma Rule_eq_value:
  assumes "left_freq a \<noteq> 0" and "left_freq b \<noteq> 0"
  shows "Rule_eq a b = Inr (rule_equiv a b)"
  using rule_less_equiv_cases [of a b]
  by (auto simp: Rule_eq_def Rule_cmp_value [OF assms] rule_less_def rule_equiv_def)


lemma rule_less_irrefl: "\<not> rule_less a a"
  by (simp add: rule_less_def)

lemma rule_less_asym: "rule_less a b \<Longrightarrow> \<not> rule_less b a"
  by (auto simp: rule_less_def)


lemma rule_less_negtrans: "rule_less a c \<Longrightarrow> rule_less a b \<or> rule_less b c"
  by (auto simp: rule_less_def)




lemma well_formed_Cons [simp]:
  "well_formed (r # rs) \<longleftrightarrow> left_freq r \<noteq> 0 \<and> well_formed rs"
  by (simp add: well_formed_def)

lemma well_formed_Nil [simp]: "well_formed []"
  by (simp add: well_formed_def)

lemma well_formed_set: "well_formed rs \<longleftrightarrow> (\<forall>r \<in> set rs. left_freq r \<noteq> 0)"
  by (simp add: well_formed_def list_all_iff)

lemma ascending_Cons:
  "ascending (r # rs) \<longleftrightarrow> (\<forall>y \<in> set rs. \<not> rule_less y r) \<and> ascending rs"
  by (simp add: ascending_def)

lemma insort_rule_result:
  assumes "left_freq x \<noteq> 0" and "well_formed ys"
  shows "\<exists>zs. insort_rule x ys = Inr zs \<and> mset zs = mset (x # ys)
           \<and> (ascending ys \<longrightarrow> ascending zs)"
  using assms(2)
proof (induction ys)
  case Nil
  then show ?case by (simp add: ascending_def)
next
  case (Cons y ys)
  then have wy: "left_freq y \<noteq> 0" and wys: "well_formed ys" by simp_all
  from Cons.IH [OF wys] obtain zs where
    zs: "insort_rule x ys = Inr zs" "mset zs = mset (x # ys)"
        "ascending ys \<longrightarrow> ascending zs" by blast
  show ?case
  proof (cases "rule_less y x")
    case True
    have "ascending (y # ys) \<longrightarrow> ascending (y # zs)"
    proof
      assume a: "ascending (y # ys)"
      then have "ascending zs" using zs(3) by (simp add: ascending_Cons)
      moreover have "\<forall>z \<in> set zs. \<not> rule_less z y"
      proof
        fix z assume "z \<in> set zs"
        then have "z \<in># mset (x # ys)" using zs(2) by (metis set_mset_mset)
        then have "z = x \<or> z \<in> set ys" by auto
        then show "\<not> rule_less z y"
          using a True rule_less_asym by (auto simp: ascending_Cons)
      qed
      ultimately show "ascending (y # zs)" by (simp add: ascending_Cons)
    qed
    then show ?thesis
      using True zs by (simp add: Rule_lt_value [OF wy assms(1)])
  next
    case False
    have "ascending (y # ys) \<longrightarrow> ascending (x # y # ys)"
    proof
      assume a: "ascending (y # ys)"
      have "\<forall>z \<in> set (y # ys). \<not> rule_less z x"
      proof
        fix z assume "z \<in> set (y # ys)"
        then have "\<not> rule_less z y" using a rule_less_irrefl by (auto simp: ascending_Cons)
        then show "\<not> rule_less z x" using False rule_less_negtrans by blast
      qed
      then show "ascending (x # y # ys)" using a by (simp add: ascending_Cons)
    qed
    then show ?thesis
      using False by (simp add: Rule_lt_value [OF wy assms(1)])
  qed
qed

lemma sort_rules_result:
  assumes "well_formed xs"
  shows "\<exists>ys. sort_rules xs = Inr ys \<and> mset ys = mset xs \<and> ascending ys"
  using assms
proof (induction xs)
  case Nil
  then show ?case by (simp add: ascending_def)
next
  case (Cons x xs)
  then obtain ys where ys: "sort_rules xs = Inr ys" "mset ys = mset xs" "ascending ys"
    by auto
  have "set ys = set xs" using ys(2) by (metis set_mset_mset)
  then have "well_formed ys" using Cons.prems by (simp add: well_formed_set)
  from insort_rule_result [OF _ this, of x] Cons.prems obtain zs where
    "insort_rule x ys = Inr zs" "mset zs = mset (x # ys)" "ascending ys \<longrightarrow> ascending zs"
    by auto
  then show ?case using ys by simp
qed



lemma sorted_reverse_result:
  assumes "well_formed rs"
  shows "\<exists>out. sorted_reverse rs = Inr out \<and> mset out = mset rs \<and> ascending (rev out)"
proof -
  have "well_formed (rev rs)" using assms by (simp add: well_formed_set)
  from sort_rules_result [OF this] obtain ys where
    "sort_rules (rev rs) = Inr ys" "mset ys = mset (rev rs)" "ascending ys" by blast
  then show ?thesis by (simp add: sorted_reverse_def)
qed



lemma Rule_lt_True_iff:
  assumes "left_freq a \<noteq> 0" and "left_freq b \<noteq> 0"
  shows "Rule_lt a b = Inr True \<longleftrightarrow> rule_less a b"
    and "Rule_lt a b = Inr False \<longleftrightarrow> \<not> rule_less a b"
    and "Rule_eq a b = Inr True \<longleftrightarrow> rule_equiv a b"
    and "Rule_eq a b = Inr False \<longleftrightarrow> \<not> rule_equiv a b"
  by (simp_all add: Rule_lt_value [OF assms] Rule_eq_value [OF assms])




section \<open>The ranked rule list\<close>






section \<open>Combinations\<close>

lemma in_combinations:
  "c \<in> set (combinations xs r) \<longleftrightarrow> subseq c xs \<and> length c = r"
proof (induction xs r arbitrary: c rule: combinations.induct)
  case (1 xs)
  then show ?case by auto
next
  case (2 r)
  then show ?case by auto
next
  case (3 x xs r)
  show ?case
  proof (cases c)
    case Nil
    then show ?thesis using 3 by auto
  next
    case (Cons y c')
    then show ?thesis using 3 by (auto dest: subseq_Cons')
  qed
qed

lemma subseq_distinct: "subseq c xs \<Longrightarrow> distinct xs \<Longrightarrow> distinct c"
  by (metis subseqs_distinctD in_set_subseqs)

lemma subseq_filter_mem:
  "subseq c xs \<Longrightarrow> distinct xs \<Longrightarrow> [x \<leftarrow> xs. x \<in> set c] = c"
proof (induction c xs rule: list_emb.induct)
  case (list_emb_Nil ys)
  then show ?case by simp
next
  case (list_emb_Cons xs ys y)
  then have "y \<notin> set xs" using list_emb_set [of "(=)" xs ys] by auto
  then show ?case using list_emb_Cons by simp
next
  case (list_emb_Cons2 x y xs ys)
  then have "x \<notin> set ys" by simp
  then have "[z \<leftarrow> ys. z = x \<or> z \<in> set xs] = [z \<leftarrow> ys. z \<in> set xs]"
    by (intro filter_cong) auto
  then show ?case using list_emb_Cons2 by simp
qed

lemma complement_mset:
  assumes "subseq c xs" and "distinct xs"
  shows "mset (c @ [x \<leftarrow> xs. x \<notin> set c]) = mset xs"
proof -
  have "mset c = filter_mset (\<lambda>x. x \<in> set c) (mset xs)"
    using subseq_filter_mem [OF assms] by (metis mset_filter)
  then have "mset (c @ [x \<leftarrow> xs. x \<notin> set c])
      = filter_mset (\<lambda>x. x \<in> set c) (mset xs) + filter_mset (\<lambda>x. x \<notin> set c) (mset xs)"
    by simp
  also have "\<dots> = mset xs"
    by (rule multiset_partition [symmetric])
  finally show ?thesis .
qed

lemma in_proper_combinations:
  "c \<in> set (proper_combinations items) \<longleftrightarrow>
     subseq c items \<and> c \<noteq> [] \<and> length c < length items"
  by (cases c) (auto simp: proper_combinations_def in_combinations)

section \<open>Results about the rule engine\<close>

lemma rule_of_combination_fields:
  assumes "rule_of_combination args items freq c = Inr r"
  shows "left r = c \<and> right r = [item \<leftarrow> items. item \<notin> set c] \<and> all_freq r = freq"
  using assms
  by (auto simp: rule_of_combination_def split: sum.splits)

lemma append_rules_result:
  assumes "append_rules args items freq cs acc = Inr out"
  shows "\<exists>rs. out = acc @ rs
     \<and> list_all2 (\<lambda>c r. rule_of_combination args items freq c = Inr r) cs rs"
  using assms
proof (induction cs arbitrary: acc)
  case Nil
  then show ?case by simp
next
  case (Cons c cs)
  then obtain r where r: "rule_of_combination args items freq c = Inr r"
    and rest: "append_rules args items freq cs (acc @ [r]) = Inr out"
    by (auto split: sum.splits)
  from Cons.IH [OF rest] obtain rs where
    "out = (acc @ [r]) @ rs"
    "list_all2 (\<lambda>c r. rule_of_combination args items freq c = Inr r) cs rs" by blast
  then have "out = acc @ (r # rs)
     \<and> list_all2 (\<lambda>c r. rule_of_combination args items freq c = Inr r) (c # cs) (r # rs)"
    using r by simp
  then show ?case by blast
qed

lemma rules_loop_result:
  assumes "rules_loop tbl args acc = Inr out"
  shows "\<exists>rs. out = acc @ rs
     \<and> (\<forall>r \<in> set rs. \<exists>(itemset, freq) \<in> set tbl.
           \<exists>c \<in> set (proper_combinations (str_split itemset)).
             rule_of_combination args (str_split itemset) freq c = Inr r)
     \<and> (\<forall>(itemset, freq) \<in> set tbl.
           \<forall>c \<in> set (proper_combinations (str_split itemset)).
             \<exists>r \<in> set rs. rule_of_combination args (str_split itemset) freq c = Inr r)"
  using assms
proof (induction tbl arbitrary: acc)
  case Nil
  then show ?case by simp
next
  case (Cons p tbl)
  obtain itemset freq where p: "p = (itemset, freq)" by (cases p)
  let ?items = "str_split itemset"
  from Cons.prems p obtain mid where
    mid: "append_rules args ?items freq (proper_combinations ?items) acc = Inr mid"
    and rest: "rules_loop tbl args mid = Inr out"
    by (auto simp: Let_def split: sum.splits)
  from append_rules_result [OF mid] obtain rs1 where
    rs1: "mid = acc @ rs1"
      "list_all2 (\<lambda>c r. rule_of_combination args ?items freq c = Inr r)
         (proper_combinations ?items) rs1" by blast
  from Cons.IH [OF rest] obtain rs2 where
    rs2: "out = mid @ rs2"
      "\<forall>r \<in> set rs2. \<exists>(itemset, freq) \<in> set tbl.
           \<exists>c \<in> set (proper_combinations (str_split itemset)).
             rule_of_combination args (str_split itemset) freq c = Inr r"
      "\<forall>(itemset, freq) \<in> set tbl.
           \<forall>c \<in> set (proper_combinations (str_split itemset)).
             \<exists>r \<in> set rs2. rule_of_combination args (str_split itemset) freq c = Inr r"
    by blast
  have a: "\<exists>c \<in> set (proper_combinations ?items).
             rule_of_combination args ?items freq c = Inr r" if "r \<in> set rs1" for r
  proof -
    from that obtain i where "i < length rs1" "rs1 ! i = r" by (auto simp: in_set_conv_nth)
    then have "proper_combinations ?items ! i \<in> set (proper_combinations ?items)"
      "rule_of_combination args ?items freq (proper_combinations ?items ! i) = Inr r"
      using rs1(2) by (auto simp: list_all2_conv_all_nth)
    then show ?thesis by blast
  qed
  have b: "\<exists>r \<in> set rs1. rule_of_combination args ?items freq c = Inr r"
    if "c \<in> set (proper_combinations ?items)" for c
  proof -
    from that obtain i where "i < length (proper_combinations ?items)"
      "proper_combinations ?items ! i = c" by (auto simp: in_set_conv_nth)
    then have "rs1 ! i \<in> set rs1" "rule_of_combination args ?items freq c = Inr (rs1 ! i)"
      using rs1(2) by (auto simp: list_all2_conv_all_nth)
    then show ?thesis by blast
  qed
  have "out = acc @ (rs1 @ rs2)" using rs1(1) rs2(1) by simp
  moreover have "\<forall>r \<in> set (rs1 @ rs2). \<exists>(itemset, freq) \<in> set (p # tbl).
           \<exists>c \<in> set (proper_combinations (str_split itemset)).
             rule_of_combination args (str_split itemset) freq c = Inr r"
  proof
    fix r assume "r \<in> set (rs1 @ rs2)"
    then consider "r \<in> set rs1" | "r \<in> set rs2" by auto
    then show "\<exists>(itemset, freq) \<in> set (p # tbl).
           \<exists>c \<in> set (proper_combinations (str_split itemset)).
             rule_of_combination args (str_split itemset) freq c = Inr r"
    proof cases
      case 1
      from a [OF this] show ?thesis unfolding p by simp
    next
      case 2
      with rs2(2) show ?thesis by auto
    qed
  qed
  moreover have "\<forall>(itemset, freq) \<in> set (p # tbl).
           \<forall>c \<in> set (proper_combinations (str_split itemset)).
             \<exists>r \<in> set (rs1 @ rs2). rule_of_combination args (str_split itemset) freq c = Inr r"
  proof -
    have "\<exists>r \<in> set (rs1 @ rs2). rule_of_combination args (str_split k) f c = Inr r"
      if "(k, f) \<in> set (p # tbl)" and "c \<in> set (proper_combinations (str_split k))" for k f c
    proof (cases "(k, f) = p")
      case True
      then have "k = itemset" "f = freq" using p by simp_all
      with b that(2) show ?thesis by auto
    next
      case False
      then have "(k, f) \<in> set tbl" using that(1) by simp
      with rs2(3) that(2) have "\<exists>r \<in> set rs2. rule_of_combination args (str_split k) f c = Inr r"
        by blast
      then show ?thesis by auto
    qed
    then show ?thesis by blast
  qed
  ultimately show ?case by blast
qed

lemma rule_of_combination_shape:
  assumes "rule_of_combination args items freq c = Inr r"
    and "c \<in> set (proper_combinations items)" and "distinct items"
  shows "sort (left r @ right r) = sort items
     \<and> set (left r) \<union> set (right r) = set items
     \<and> set (left r) \<inter> set (right r) = {}
     \<and> left r \<noteq> [] \<and> set (left r) \<subset> set items
     \<and> subseq (left r) items \<and> length (left r) < length items \<and> all_freq r = freq"
proof -
  from rule_of_combination_fields [OF assms(1)]
  have l: "left r = c" and rt: "right r = [item \<leftarrow> items. item \<notin> set c]"
    and f: "all_freq r = freq" by simp_all
  from assms(2) have sub: "subseq c items" and ne: "c \<noteq> []" and len: "length c < length items"
    by (simp_all add: in_proper_combinations)
  have m: "mset (left r @ right r) = mset items"
    unfolding l rt using sub assms(3) by (rule complement_mset)
  then have srt: "sort (left r @ right r) = sort items"
    by (metis sorted_list_of_multiset_mset)
  have un: "set (left r) \<union> set (right r) = set items"
    using m by (metis set_append set_mset_mset)
  have dj: "set (left r) \<inter> set (right r) = {}"
    unfolding l rt by auto
  have dc: "distinct c" using sub assms(3) by (rule subseq_distinct)
  have "card (set c) < card (set items)"
    using len dc assms(3) by (simp add: distinct_card)
  moreover have "set c \<subseteq> set items" using un l by auto
  ultimately have ps: "set (left r) \<subset> set items" unfolding l by auto
  show ?thesis using srt un dj ne ps sub len f l by simp
qed

text \<open>
  Claim C7 (rule reconstruction): when \<open>make_rules\<close> returns a rule list for a table
  whose keys split into pairwise distinct items, every rule comes from a key of the
  table: its left and right items together, sorted, are the sorted items of that key,
  left and right share no item, and the left side is a non-empty proper subset of the
  items (a subsequence of them, shorter than they are), with the key's frequency as
  \<open>all_freq\<close>. Every such subsequence of every key is the left side of a returned rule,
  so every size from 1 to n - 1 is enumerated.
\<close>

theorem make_rules_reconstruction:
  assumes "make_rules top_level args = Inr rules"
    and "\<forall>(itemset, freq) \<in> set top_level. distinct (str_split itemset)"
  shows "(\<forall>r \<in> set rules. \<exists>(itemset, freq) \<in> set top_level.
            sort (left r @ right r) = sort (str_split itemset)
          \<and> set (left r) \<union> set (right r) = set (str_split itemset)
          \<and> set (left r) \<inter> set (right r) = {}
          \<and> left r \<noteq> [] \<and> set (left r) \<subset> set (str_split itemset)
          \<and> subseq (left r) (str_split itemset)
          \<and> length (left r) < length (str_split itemset)
          \<and> all_freq r = freq)
     \<and> (\<forall>(itemset, freq) \<in> set top_level.
          \<forall>c. subseq c (str_split itemset) \<and> c \<noteq> [] \<and> length c < length (str_split itemset)
            \<longrightarrow> (\<exists>r \<in> set rules. left r = c
                   \<and> right r = [item \<leftarrow> str_split itemset. item \<notin> set c]
                   \<and> all_freq r = freq))"
proof -
  from assms(1) have "rules_loop top_level args [] = Inr rules" by (simp add: make_rules_def)
  from rules_loop_result [OF this] have
    snd: "\<forall>r \<in> set rules. \<exists>(itemset, freq) \<in> set top_level.
           \<exists>c \<in> set (proper_combinations (str_split itemset)).
             rule_of_combination args (str_split itemset) freq c = Inr r"
    and cmp: "\<forall>(itemset, freq) \<in> set top_level.
           \<forall>c \<in> set (proper_combinations (str_split itemset)).
             \<exists>r \<in> set rules. rule_of_combination args (str_split itemset) freq c = Inr r"
    by auto
  have one: "\<exists>(itemset, freq) \<in> set top_level.
            sort (left r @ right r) = sort (str_split itemset)
          \<and> set (left r) \<union> set (right r) = set (str_split itemset)
          \<and> set (left r) \<inter> set (right r) = {}
          \<and> left r \<noteq> [] \<and> set (left r) \<subset> set (str_split itemset)
          \<and> subseq (left r) (str_split itemset)
          \<and> length (left r) < length (str_split itemset)
          \<and> all_freq r = freq" if "r \<in> set rules" for r
  proof -
    from snd that obtain itemset freq c where
      k: "(itemset, freq) \<in> set top_level"
      and c: "c \<in> set (proper_combinations (str_split itemset))"
      and r: "rule_of_combination args (str_split itemset) freq c = Inr r"
      by fast
    from assms(2) k have "distinct (str_split itemset)" by auto
    from rule_of_combination_shape [OF r c this] k show ?thesis by blast
  qed
  have two: "\<exists>r \<in> set rules. left r = c
                   \<and> right r = [item \<leftarrow> str_split itemset. item \<notin> set c]
                   \<and> all_freq r = freq"
    if "(itemset, freq) \<in> set top_level" and "subseq c (str_split itemset)"
      and "c \<noteq> []" and "length c < length (str_split itemset)" for itemset freq c
  proof -
    have "c \<in> set (proper_combinations (str_split itemset))"
      using that(2-4) by (simp add: in_proper_combinations)
    with cmp that(1) obtain r where "r \<in> set rules"
      "rule_of_combination args (str_split itemset) freq c = Inr r" by fast
    then show ?thesis using rule_of_combination_fields by blast
  qed
  from one two show ?thesis by blast
qed

lemma make_rules_pair_example:
  "make_rules [(''a b'', 2)] [[(''a'', 3), (''b'', 3)]]
     = Inr [\<lparr>left = [''a''], right = [''b''], all_freq = 2, left_freq = 3\<rparr>,
            \<lparr>left = [''b''], right = [''a''], all_freq = 2, left_freq = 3\<rparr>]"
  by code_simp

lemma split_pair_example: "str_split ''a b'' = [''a'', ''b'']"
  by code_simp

theorem make_rules_reconstruction_witness:
  "make_rules [(''a b'', 2)] [[(''a'', 3), (''b'', 3)]]
     = Inr [\<lparr>left = [''a''], right = [''b''], all_freq = 2, left_freq = 3\<rparr>,
            \<lparr>left = [''b''], right = [''a''], all_freq = 2, left_freq = 3\<rparr>]
   \<and> distinct (str_split ''a b'')
   \<and> sort ([''b''] @ [''a'']) = sort (str_split ''a b'')
   \<and> set [''b''] \<inter> set [''a''] = {}
   \<and> set [''b''] \<subset> set (str_split ''a b'')"
proof -
  have d: "\<forall>(itemset, freq) \<in> set [(''a b'', 2 :: int)]. distinct (str_split itemset)"
    by (simp add: split_pair_example)
  from make_rules_reconstruction [OF make_rules_pair_example d]
  have "sort ([''b''] @ [''a'']) = sort (str_split ''a b'')
      \<and> set [''b''] \<inter> set [''a''] = {} \<and> set [''b''] \<subset> set (str_split ''a b'')"
    by simp
  then show ?thesis using make_rules_pair_example by (simp add: split_pair_example)
qed

section \<open>Splitting and joining\<close>

lemma isspace_space [simp]: "isspace CHR '' ''"
  by (simp add: isspace_def)

lemma split_acc_word:
  "list_all (\<lambda>c. \<not> isspace c) t \<Longrightarrow> split_acc (t @ cs) w = split_acc cs (rev t @ w)"
  by (induction t arbitrary: w) simp_all

lemma split_acc_tokens:
  "list_all (\<lambda>c. \<not> isspace c) w \<Longrightarrow> list_all token (split_acc s w)"
  by (induction s w rule: split_acc.induct) (auto simp: token_def)

lemma str_split_tokens: "list_all token (str_split s)"
  by (simp add: str_split_def split_acc_tokens)

lemma str_split_join:
  "list_all token items \<Longrightarrow> str_split (str_join items) = items"
proof (induction items rule: str_join.induct)
  case 1
  then show ?case by (simp add: str_split_def)
next
  case (2 x)
  then have "list_all (\<lambda>c. \<not> isspace c) x" "x \<noteq> []" by (simp_all add: token_def)
  then show ?case using split_acc_word [of x "[]" "[]"] by (simp add: str_split_def)
next
  case (3 x y ys)
  then have x: "list_all (\<lambda>c. \<not> isspace c) x" "x \<noteq> []" by (simp_all add: token_def)
  from 3 have IH: "str_split (str_join (y # ys)) = y # ys" by simp
  have "str_split (str_join (x # y # ys)) = split_acc (x @ CHR '' '' # str_join (y # ys)) []"
    by (simp add: str_split_def)
  also have "\<dots> = split_acc (CHR '' '' # str_join (y # ys)) (rev x)"
    using split_acc_word [OF x(1), of _ "[]"] by simp
  also have "\<dots> = x # str_split (str_join (y # ys))"
    using x(2) by (simp add: str_split_def)
  finally show ?case using IH by simp
qed

lemma str_join_inject:
  assumes "str_join a = str_join b" and "list_all token a" and "list_all token b"
  shows "a = b"
  by (metis assms str_split_join)

lemma str_join_snoc:
  "items \<noteq> [] \<Longrightarrow> str_join (items @ [x]) = str_join items @ CHR '' '' # x"
  by (induction items rule: str_join.induct) simp_all

lemma itemset_key_items:
  assumes "itemset_key k key"
  shows "length (str_split key) = k" and "sorted_wrt (<) (str_split key)"
    and "str_join (str_split key) = key" and "list_all token (str_split key)"
  using assms by (simp_all add: itemset_key_def Let_def str_split_tokens)

lemma itemset_key_join:
  assumes "list_all token items" and "sorted_wrt (<) items"
  shows "itemset_key (length items) (str_join items)"
  using assms by (simp add: itemset_key_def str_split_join)

lemma str_join_spaces:
  "length (filter isspace (str_join T))
     = (length T - 1) + sum_list (map (\<lambda>w. length (filter isspace w)) T)"
  by (induction T rule: str_join.induct) simp_all

lemma str_split_join_words:
  assumes "\<forall>w \<in> set T. list_all (\<lambda>c. \<not> isspace c) w"
  shows "str_split (str_join T) = [w \<leftarrow> T. w \<noteq> []]"
  using assms
proof (induction T rule: str_join.induct)
  case 1
  then show ?case by (simp add: str_split_def)
next
  case (2 x)
  then have "list_all (\<lambda>c. \<not> isspace c) x" by simp
  from split_acc_word [OF this, of "[]" "[]"] show ?case by (simp add: str_split_def)
next
  case (3 x y ys)
  then have x: "list_all (\<lambda>c. \<not> isspace c) x" by simp
  from 3 have IH: "str_split (str_join (y # ys)) = [w \<leftarrow> y # ys. w \<noteq> []]" by simp
  have "str_split (str_join (x # y # ys)) = split_acc (CHR '' '' # str_join (y # ys)) (rev x)"
    using split_acc_word [OF x, of _ "[]"] by (simp add: str_split_def)
  also have "\<dots> = [w \<leftarrow> [x]. w \<noteq> []] @ str_split (str_join (y # ys))"
    by (simp add: str_split_def)
  finally show ?case using IH by simp
qed

lemma itemset_key_join_tokens:
  assumes "itemset_key (length T) (str_join T)"
  shows "list_all token T"
proof -
  let ?K = "str_join T" and ?n = "\<lambda>w. length (filter isspace w)"
  note K = itemset_key_items [OF assms]
  have z: "?n w = 0" if "token w" for w
    using that by (simp add: token_def list_all_iff)
  have "sum_list (map ?n (str_split ?K)) = 0"
    using K(4) z by (simp add: list_all_iff)
  then have "?n (str_join (str_split ?K)) = length T - 1"
    using K(1) by (simp add: str_join_spaces)
  then have "?n ?K = length T - 1" using K(3) by simp
  then have "sum_list (map ?n T) = 0" by (simp add: str_join_spaces)
  then have ns: "\<forall>w \<in> set T. list_all (\<lambda>c. \<not> isspace c) w"
    by (auto simp: list_all_iff filter_empty_conv)
  from str_split_join_words [OF ns] K(1)
  have "length [w \<leftarrow> T. w \<noteq> []] = length T" by simp
  then have "length [w \<leftarrow> T. \<not> w \<noteq> []] = 0"
    using sum_length_filter_compl [of "\<lambda>w. w \<noteq> []" T] by linarith
  then have "\<forall>w \<in> set T. w \<noteq> []" by (auto simp: filter_empty_conv)
  with ns show ?thesis by (simp add: token_def list_all_iff)
qed

section \<open>Results about the candidate generator\<close>

lemma prefix_scan_bounds:
  "i \<le> prefix_scan p os js i"
proof (induction p os js i rule: prefix_scan.induct)
  case (1 p os js i)
  show ?case
  proof (cases "int i < p \<and> i < length os \<and> i < length js \<and> os ! i = js ! i")
    case True
    then have "Suc i \<le> prefix_scan p os js (i + 1)" using 1 by simp
    then show ?thesis using True by (subst prefix_scan.simps) simp
  next
    case False
    then show ?thesis by (subst prefix_scan.simps) auto
  qed
qed

lemma prefix_scan_full:
  assumes "i \<le> n" and "n \<le> length os" and "n \<le> length js"
  shows "prefix_scan (int n) os js i = n \<longleftrightarrow> (\<forall>j. i \<le> j \<and> j < n \<longrightarrow> os ! j = js ! j)"
  using assms(1)
proof (induction "n - i" arbitrary: i)
  case 0
  then have "i = n" by simp
  then show ?case by (subst prefix_scan.simps) auto
next
  case (Suc d)
  then have lt: "i < n" by simp
  show ?case
  proof (cases "os ! i = js ! i")
    case True
    have step: "prefix_scan (int n) os js i = prefix_scan (int n) os js (i + 1)"
      using lt True assms(2,3) by (subst prefix_scan.simps) simp
    have "d = n - (i + 1)" using Suc(2) by simp
    from Suc(1) [OF this] lt
    have "prefix_scan (int n) os js (i + 1) = n \<longleftrightarrow>
        (\<forall>j. i + 1 \<le> j \<and> j < n \<longrightarrow> os ! j = js ! j)" by simp
    moreover have "(\<forall>j. i \<le> j \<and> j < n \<longrightarrow> os ! j = js ! j)
        \<longleftrightarrow> (\<forall>j. i + 1 \<le> j \<and> j < n \<longrightarrow> os ! j = js ! j)"
    proof
      assume "\<forall>j. i \<le> j \<and> j < n \<longrightarrow> os ! j = js ! j"
      then show "\<forall>j. i + 1 \<le> j \<and> j < n \<longrightarrow> os ! j = js ! j" by simp
    next
      assume h: "\<forall>j. i + 1 \<le> j \<and> j < n \<longrightarrow> os ! j = js ! j"
      show "\<forall>j. i \<le> j \<and> j < n \<longrightarrow> os ! j = js ! j"
      proof (intro allI impI)
        fix j assume "i \<le> j \<and> j < n"
        then have "j = i \<or> (i + 1 \<le> j \<and> j < n)" by auto
        then show "os ! j = js ! j" using True h by blast
      qed
    qed
    ultimately show ?thesis using step by simp
  next
    case False
    then have "prefix_scan (int n) os js i = i"
      by (subst prefix_scan.simps) simp
    moreover have "\<not> (\<forall>j. i \<le> j \<and> j < n \<longrightarrow> os ! j = js ! j)"
      using False lt by auto
    ultimately show ?thesis using lt by simp
  qed
qed

lemma prefix_scan_butlast:
  assumes "length os = length js" and "os \<noteq> []"
  shows "int (prefix_scan (int (length os) - 1) os js 0) = int (length os) - 1
     \<longleftrightarrow> butlast os = butlast js"
proof -
  let ?n = "length os - 1"
  have n: "int (length os) - 1 = int ?n" using assms(2) by (cases os) simp_all
  have "prefix_scan (int ?n) os js 0 = ?n \<longleftrightarrow> (\<forall>j. 0 \<le> j \<and> j < ?n \<longrightarrow> os ! j = js ! j)"
    using assms by (intro prefix_scan_full) simp_all
  also have "\<dots> \<longleftrightarrow> (\<forall>j < length (butlast os). butlast os ! j = butlast js ! j)"
    using assms(1) by (simp add: nth_butlast)
  also have "\<dots> \<longleftrightarrow> butlast os = butlast js"
    using assms(1) list_eq_iff_nth_eq [of "butlast os" "butlast js"] by simp
  finally have "prefix_scan (int ?n) os js 0 = ?n \<longleftrightarrow> butlast os = butlast js" .
  then show ?thesis unfolding n by (simp only: of_nat_eq_iff)
qed

lemma list_get_last:
  "xs \<noteq> [] \<Longrightarrow> list_get xs (int (length xs) - 1) = Inr (last xs)"
  by (cases xs rule: rev_cases) (simp_all add: list_get_def nth_append)

lemma inner_step_uniform:
  assumes "length outer_items = length (str_split inner_key)" and "outer_items \<noteq> []"
  shows "inner_step outer_items inner_key cs =
     Inr (if butlast outer_items = butlast (str_split inner_key)
          then AList.update (str_join (outer_items @ [last (str_split inner_key)])) 0 cs
          else cs)"
proof -
  have ne: "str_split inner_key \<noteq> []" using assms by auto
  have g: "list_get (str_split inner_key) (int (length outer_items) - 1)
      = Inr (last (str_split inner_key))"
    using list_get_last [OF ne] assms(1) by simp
  show ?thesis
    using prefix_scan_butlast [OF assms] g
    by (simp add: inner_step_def Let_def)
qed

lemma zero_table_Nil [simp]: "zero_table []"
  by (simp add: zero_table_def)

lemma update_entries: "set (AList.update k v al) \<subseteq> insert (k, v) (set al)"
  by (induction al) auto

lemma zero_table_update: "zero_table t \<Longrightarrow> zero_table (AList.update k 0 t)"
  using update_entries [of k 0 t]
  by (auto simp: zero_table_def distinct_update list_all_iff)

lemma zero_table_lookup:
  assumes "zero_table t" and "k \<in> fst ` set t"
  shows "map_of t k = Some 0"
proof -
  from assms(2) obtain v where kv: "(k, v) \<in> set t" by auto
  then have "v = 0" using assms(1) by (auto simp: zero_table_def list_all_iff)
  moreover have "map_of t k = Some v" using assms(1) kv by (simp add: zero_table_def)
  ultimately show ?thesis by simp
qed

lemma inner_loop_uniform:
  assumes "os \<noteq> []" and "\<forall>b \<in> set ks. length (str_split b) = length os"
  shows "\<exists>t'. inner_loop os ks t = Inr t'
     \<and> fst ` set t' = fst ` set t
          \<union> {str_join (os @ [last (str_split b)]) | b. b \<in> set ks \<and> butlast os = butlast (str_split b)}
     \<and> (zero_table t \<longrightarrow> zero_table t')"
  using assms(2)
proof (induction ks arbitrary: t)
  case Nil
  then show ?case by simp
next
  case (Cons b ks)
  let ?t1 = "if butlast os = butlast (str_split b)
          then AList.update (str_join (os @ [last (str_split b)])) 0 t else t"
  have len: "length os = length (str_split b)" using Cons.prems by simp
  have step: "inner_step os b t = Inr ?t1"
    using inner_step_uniform [OF len assms(1)] .
  from Cons.prems have "\<forall>b \<in> set ks. length (str_split b) = length os" by simp
  from Cons.IH [OF this, of ?t1] obtain t' where
    t': "inner_loop os ks ?t1 = Inr t'"
      "fst ` set t' = fst ` set ?t1
          \<union> {str_join (os @ [last (str_split b)]) | b. b \<in> set ks \<and> butlast os = butlast (str_split b)}"
      "zero_table ?t1 \<longrightarrow> zero_table t'" by blast
  have a: "inner_loop os (b # ks) t = Inr t'" using step t'(1) by simp
  have k1: "fst ` set ?t1 = fst ` set t
      \<union> {str_join (os @ [last (str_split b')]) | b'. b' = b \<and> butlast os = butlast (str_split b')}"
    by (auto simp: dom_update)
  have b: "fst ` set t' = fst ` set t
          \<union> {str_join (os @ [last (str_split b')]) | b'.
               b' \<in> set (b # ks) \<and> butlast os = butlast (str_split b')}"
    unfolding t'(2) k1 by auto
  have c: "zero_table t \<longrightarrow> zero_table t'"
    using t'(3) zero_table_update by auto
  from a b c show ?case by blast
qed

lemma outer_loop_uniform:
  assumes "0 < n" and "\<forall>a \<in> set ks. length (str_split a) = n"
  shows "\<exists>t'. outer_loop ks t = Inr t'
     \<and> fst ` set t' = fst ` set t
          \<union> {joined a b | a b. (a, b) \<in> suffix_pairs ks \<and> joinable a b}
     \<and> (zero_table t \<longrightarrow> zero_table t')"
  using assms(2)
proof (induction ks arbitrary: t)
  case Nil
  then show ?case by simp
next
  case (Cons a ks)
  have ne: "str_split a \<noteq> []" using Cons.prems assms(1) by auto
  have u: "\<forall>b \<in> set (a # ks). length (str_split b) = length (str_split a)"
    using Cons.prems by simp
  from inner_loop_uniform [OF ne u, of t] obtain t1 where
    t1: "inner_loop (str_split a) (a # ks) t = Inr t1"
      "fst ` set t1 = fst ` set t
          \<union> {str_join (str_split a @ [last (str_split b)]) | b.
               b \<in> set (a # ks) \<and> butlast (str_split a) = butlast (str_split b)}"
      "zero_table t \<longrightarrow> zero_table t1" by blast
  from Cons.prems have "\<forall>a \<in> set ks. length (str_split a) = n" by simp
  from Cons.IH [OF this, of t1] obtain t' where
    t': "outer_loop ks t1 = Inr t'"
      "fst ` set t' = fst ` set t1
          \<union> {joined a b | a b. (a, b) \<in> suffix_pairs ks \<and> joinable a b}"
      "zero_table t1 \<longrightarrow> zero_table t'" by blast
  have a: "outer_loop (a # ks) t = Inr t'" using t1(1) t'(1) by simp
  have b: "fst ` set t' = fst ` set t
          \<union> {joined a' b | a' b. (a', b) \<in> suffix_pairs (a # ks) \<and> joinable a' b}"
    unfolding t'(2) t1(2) by (auto simp: joined_def joinable_def)
  have c: "zero_table t \<longrightarrow> zero_table t'" using t1(3) t'(3) by simp
  from a b c show ?case by blast
qed

lemma suffix_pairs_subset: "suffix_pairs ks \<subseteq> set ks \<times> set ks"
  by (induction ks) auto

lemma suffix_pairs_sorted:
  "sorted ks \<Longrightarrow> suffix_pairs ks = {(a, b). a \<in> set ks \<and> b \<in> set ks \<and> a \<le> b}"
proof (induction ks)
  case Nil
  then show ?case by simp
next
  case (Cons a ks)
  then have IH: "suffix_pairs ks = {(a, b). a \<in> set ks \<and> b \<in> set ks \<and> a \<le> b}"
    and le: "\<forall>b \<in> set ks. a \<le> b" by simp_all
  show ?case unfolding suffix_pairs.simps IH using le by force
qed

lemma make_candidates_keys:
  assumes "0 < n" and "\<forall>key \<in> fst ` set prev. length (str_split key) = n"
  shows "\<exists>t. make_candidates prev = Inr t \<and> zero_table t
     \<and> fst ` set t = {joined a b | a b.
          a \<in> fst ` set prev \<and> b \<in> fst ` set prev \<and> a \<le> b \<and> joinable a b}"
proof -
  let ?ks = "sort (map fst prev)"
  have s: "set ?ks = fst ` set prev" by simp
  have "\<forall>a \<in> set ?ks. length (str_split a) = n" using assms(2) s by blast
  from outer_loop_uniform [OF assms(1) this, of "[]"] obtain t where
    t: "outer_loop ?ks [] = Inr t"
      "fst ` set t = {joined a b | a b. (a, b) \<in> suffix_pairs ?ks \<and> joinable a b}"
      "zero_table t" by auto
  have "suffix_pairs ?ks = {(a, b). a \<in> set ?ks \<and> b \<in> set ?ks \<and> a \<le> b}"
    by (rule suffix_pairs_sorted) simp
  then have "fst ` set t = {joined a b | a b.
          a \<in> fst ` set prev \<and> b \<in> fst ` set prev \<and> a \<le> b \<and> joinable a b}"
    unfolding t(2) s by auto
  then show ?thesis using t(1,3) by (simp add: make_candidates_def)
qed

lemma append_le_append: "(xs @ ys \<le> xs @ zs) \<longleftrightarrow> (ys \<le> (zs :: 'a :: linorder list))"
  by (induction xs) simp_all

lemma str_join_snoc_le:
  assumes "x \<le> y"
  shows "str_join (p @ [x]) \<le> str_join (p @ [y])"
proof (cases "p = []")
  case True
  then show ?thesis using assms by simp
next
  case False
  have "str_join p @ CHR '' '' # x \<le> str_join p @ CHR '' '' # y"
    using assms by (simp only: append_le_append) simp
  then show ?thesis using False by (simp add: str_join_snoc)
qed

lemma make_candidates_join:
  assumes "0 < k" and "\<forall>key \<in> fst ` set frequent_k. length (str_split key) = k"
    and "length p + 1 = k" and "x \<le> y" and "list_all token (p @ [x, y])"
    and "str_join (p @ [x]) \<in> fst ` set frequent_k"
    and "str_join (p @ [y]) \<in> fst ` set frequent_k"
  shows "\<exists>t. make_candidates frequent_k = Inr t \<and> zero_table t
     \<and> map_of t (str_join (p @ [x, y])) = Some 0"
proof -
  let ?a = "str_join (p @ [x])" and ?b = "str_join (p @ [y])"
  from make_candidates_keys [OF assms(1,2)] obtain t where
    t: "make_candidates frequent_k = Inr t" "zero_table t"
      "fst ` set t = {joined a b | a b.
          a \<in> fst ` set frequent_k \<and> b \<in> fst ` set frequent_k \<and> a \<le> b \<and> joinable a b}"
    by blast
  have sa: "str_split ?a = p @ [x]" and sb: "str_split ?b = p @ [y]"
    using assms(5) by (simp_all add: str_split_join)
  have j: "joinable ?a ?b" by (simp add: joinable_def sa sb)
  have le: "?a \<le> ?b" using assms(4) by (rule str_join_snoc_le)
  have "joined ?a ?b \<in> fst ` set t"
    unfolding t(3) using j le assms(6,7) by blast
  moreover have "joined ?a ?b = str_join (p @ [x, y])" by (simp add: joined_def sa sb)
  ultimately have "str_join (p @ [x, y]) \<in> fst ` set t" by simp
  then have "map_of t (str_join (p @ [x, y])) = Some 0"
    using t(2) by (intro zero_table_lookup)
  then show ?thesis using t(1,2) by blast
qed

text \<open>
  Claim C1 (candidate superset): let every key of \<open>frequent_k\<close> be the canonical key of
  an itemset of size \<open>k \<ge> 1\<close>, and let \<open>S\<close> be \<open>k + 1\<close> strictly increasing items (sorted
  and free of duplicates) all of whose combinations of size \<open>k\<close>, joined, are keys of
  \<open>frequent_k\<close>. Then \<open>make_candidates\<close> returns a table, and the key of \<open>S\<close>, which is
  canonical, is in it with count 0.
\<close>

theorem make_candidates_superset:
  assumes "1 \<le> k"
    and "\<forall>key \<in> fst ` set frequent_k. itemset_key k key"
    and "length S = k + 1" and "sorted_wrt (<) S"
    and "\<forall>T \<in> set (combinations S k). str_join T \<in> fst ` set frequent_k"
  shows "\<exists>t. make_candidates frequent_k = Inr t
     \<and> map_of t (str_join S) = Some 0
     \<and> itemset_key (k + 1) (str_join S)
     \<and> distinct (map fst t)"
proof -
  from assms(1,3) obtain S' y where S1: "S = S' @ [y]" and l1: "length S' = k"
    by (cases S rule: rev_cases) auto
  from assms(1) l1 obtain p x where S2: "S' = p @ [x]" and l2: "length p + 1 = k"
    by (cases S' rule: rev_cases) auto
  have S: "S = p @ [x, y]" using S1 S2 by simp
  have "x < y" using assms(4) S by (simp add: sorted_wrt_append)
  then have xy: "x \<le> y" by (rule order.strict_implies_order)
  have "subseq (p @ [x]) S" unfolding S by (simp add: subseq_append')
  then have a: "str_join (p @ [x]) \<in> fst ` set frequent_k"
    using assms(5) l2 by (simp add: in_combinations)
  have "subseq (p @ [y]) S" unfolding S by (simp add: subseq_append')
  then have b: "str_join (p @ [y]) \<in> fst ` set frequent_k"
    using assms(5) l2 by (simp add: in_combinations)
  have "itemset_key k (str_join (p @ [x]))" using assms(2) a by blast
  then have "itemset_key (length (p @ [x])) (str_join (p @ [x]))" using l2 by simp
  then have ta: "list_all token (p @ [x])" by (rule itemset_key_join_tokens)
  have "itemset_key k (str_join (p @ [y]))" using assms(2) b by blast
  then have "itemset_key (length (p @ [y])) (str_join (p @ [y]))" using l2 by simp
  then have tb: "list_all token (p @ [y])" by (rule itemset_key_join_tokens)
  have tk: "list_all token (p @ [x, y])" using ta tb by simp
  have u: "\<forall>key \<in> fst ` set frequent_k. length (str_split key) = k"
    using assms(2) itemset_key_items(1) by blast
  have k: "0 < k" using assms(1) by simp
  from make_candidates_join [OF k u l2 xy tk a b] obtain t where
    "make_candidates frequent_k = Inr t" "zero_table t"
    "map_of t (str_join S) = Some 0" unfolding S by blast
  moreover have "itemset_key (k + 1) (str_join S)"
    using itemset_key_join [OF tk] assms(3,4) S by simp
  ultimately show ?thesis by (auto simp: zero_table_def)
qed

theorem make_candidates_superset_witness:
  "itemset_key 2 ''a b'' \<and> itemset_key 2 ''a c'' \<and> itemset_key 2 ''b c''
   \<and> sorted_wrt (<) [''a'', ''b'', ''c'']
   \<and> combinations [''a'', ''b'', ''c''] 2 = [[''a'', ''b''], [''a'', ''c''], [''b'', ''c'']]
   \<and> (\<exists>t. make_candidates [(''a b'', 100), (''a c'', 100), (''b c'', 100)] = Inr t
         \<and> map_of t ''a b c'' = Some 0)"
proof -
  have h1: "(1::nat) \<le> 2" by simp
  have h2: "\<forall>key \<in> fst ` set [(''a b'', 100 :: int), (''a c'', 100), (''b c'', 100)].
      itemset_key 2 key" by code_simp
  have h3: "length [''a'', ''b'', ''c''] = 2 + 1" by simp
  have h4: "sorted_wrt (<) [''a'', ''b'', ''c'']" by code_simp
  have h6: "\<forall>T \<in> set (combinations [''a'', ''b'', ''c''] 2).
      str_join T \<in> fst ` set [(''a b'', 100 :: int), (''a c'', 100), (''b c'', 100)]"
    by code_simp
  have c: "combinations [''a'', ''b'', ''c''] 2 = [[''a'', ''b''], [''a'', ''c''], [''b'', ''c'']]"
    by code_simp
  have j: "str_join [''a'', ''b'', ''c''] = ''a b c''" by simp
  from make_candidates_superset [OF h1 h2 h3 h4 h6]
  have "\<exists>t. make_candidates [(''a b'', 100), (''a c'', 100), (''b c'', 100)] = Inr t
         \<and> map_of t ''a b c'' = Some 0"
    unfolding j by blast
  then show ?thesis using h2 h4 c by simp
qed

lemma make_candidates_key_items:
  assumes "0 < k" and "\<forall>key \<in> fst ` set frequent_k. length (str_split key) = k"
    and "make_candidates frequent_k = Inr t" and "key \<in> fst ` set t"
  shows "\<exists>a b. a \<in> fst ` set frequent_k \<and> b \<in> fst ` set frequent_k \<and> a \<le> b
     \<and> butlast (str_split a) = butlast (str_split b)
     \<and> str_split key = str_split a @ [last (str_split b)]
     \<and> key = str_join (str_split a @ [last (str_split b)])
     \<and> length (str_split key) = k + 1"
proof -
  from make_candidates_keys [OF assms(1,2)] assms(3,4) obtain a b where
    ab: "a \<in> fst ` set frequent_k" "b \<in> fst ` set frequent_k" "a \<le> b" "joinable a b"
      "key = joined a b" by auto
  have "str_split b \<noteq> []" using assms(1,2) ab(2) by fastforce
  then have "last (str_split b) \<in> set (str_split b)" by simp
  then have "token (last (str_split b))"
    using str_split_tokens [of b] by (simp add: list_all_iff)
  then have "list_all token (str_split a @ [last (str_split b)])"
    using str_split_tokens [of a] by simp
  then have "str_split key = str_split a @ [last (str_split b)]"
    unfolding ab(5) joined_def by (rule str_split_join)
  moreover have "length (str_split a) = k" using assms(2) ab(1) by blast
  ultimately show ?thesis using ab by (auto simp: joinable_def joined_def)
qed

text \<open>
  Claim C3 (no self-join explosion) fails on the code. The inner loop of
  \<open>make_candidates\<close> starts at the outer key itself
  (\<^verbatim>\<open>range(outer, len(freq_list))\<close>), so every key is also joined with itself, and the
  candidate repeats the key's last item. For the frequent singles \<open>a\<close> and \<open>b\<close> the
  result holds \<open>a a\<close> and \<open>b b\<close> beside \<open>a b\<close>; for the frequent pairs \<open>a b\<close>, \<open>a c\<close>,
  \<open>b c\<close> it holds \<open>a b b\<close>, \<open>a c c\<close> and \<open>b c c\<close> beside \<open>a b c\<close>. (The keys of the result
  are pairwise distinct and have \<open>k + 1\<close> items each, see \<open>make_candidates_keys\<close> and
  \<open>make_candidates_key_items\<close>; only the items of a key may repeat.)
\<close>

theorem make_candidates_self_join:
  "make_candidates [(''a'', 100), (''b'', 100)]
     = Inr [(''a a'', 0), (''a b'', 0), (''b b'', 0)]
   \<and> str_split ''a a'' = [''a'', ''a'']
   \<and> \<not> distinct (str_split ''a a'')
   \<and> make_candidates [(''a b'', 100), (''a c'', 100), (''b c'', 100)]
     = Inr [(''a b b'', 0), (''a b c'', 0), (''a c c'', 0), (''b c c'', 0)]
   \<and> \<not> distinct (str_split ''a b b'')"
  by code_simp

section \<open>Results about the counting loops\<close>

lemma subseq_sorted_wrt: "subseq xs ys \<Longrightarrow> sorted_wrt P ys \<Longrightarrow> sorted_wrt P xs"
proof (induction xs ys rule: list_emb.induct)
  case (list_emb_Nil ys)
  then show ?case by simp
next
  case (list_emb_Cons xs ys y)
  then show ?case by simp
next
  case (list_emb_Cons2 x y xs ys)
  then have "set xs \<subseteq> set ys" using list_emb_set [of "(=)" xs ys] by auto
  then show ?case using list_emb_Cons2 by auto
qed

lemma subseq_list_all: "subseq xs ys \<Longrightarrow> list_all P ys \<Longrightarrow> list_all P xs"
  using list_emb_set [of "(=)" xs ys] by (auto simp: list_all_iff)

lemma distinct_combinations: "distinct xs \<Longrightarrow> distinct (combinations xs r)"
proof (induction xs r rule: combinations.induct)
  case (1 xs)
  then show ?case by simp
next
  case (2 r)
  then show ?case by simp
next
  case (3 x xs r)
  have "x # c \<notin> set (combinations xs (Suc r))" for c
  proof
    assume "x # c \<in> set (combinations xs (Suc r))"
    then have "subseq (x # c) xs" by (simp add: in_combinations)
    then have "x \<in> set xs" using list_emb_set [of "(=)" "x # c" xs] by auto
    then show False using 3(3) by simp
  qed
  then have "set (map ((#) x) (combinations xs r)) \<inter> set (combinations xs (Suc r)) = {}"
    by auto
  moreover have "distinct (map ((#) x) (combinations xs r))"
    using 3 by (simp add: distinct_map)
  ultimately show ?case using 3 by simp
qed

lemma count_combination_lookup:
  "map_of (count_combination c t) key
     = map_option (\<lambda>v. if str_join c = key then v + 1 else v) (map_of t key)"
  by (cases "map_of t (str_join c)")
    (auto simp: count_combination_def Let_def update_conv' map_option_case split: option.splits)

lemma count_combination_keys: "map fst (count_combination c t) = map fst t"
proof (cases "map_of t (str_join c)")
  case None
  then show ?thesis by (simp add: count_combination_def)
next
  case (Some v)
  then have "str_join c \<in> set (map fst t)" by (metis map_of_eq_None_iff option.distinct(1) set_map)
  then show ?thesis using Some by (simp add: count_combination_def update_keys)
qed

lemma count_combination_absent:
  "str_join c \<notin> fst ` set t \<Longrightarrow> count_combination c t = t"
  by (simp add: count_combination_def map_of_eq_None_iff [THEN iffD2])

lemma fold_count_combination_lookup:
  "map_of (fold count_combination cs t) key
     = map_option (\<lambda>v. v + int (length [c \<leftarrow> cs. str_join c = key])) (map_of t key)"
proof (induction cs arbitrary: t)
  case Nil
  then show ?case by (simp add: option.map_ident)
next
  case (Cons c cs)
  show ?case
    by (cases "map_of t key") (simp_all add: Cons count_combination_lookup)
qed

lemma fold_count_combination_keys: "map fst (fold count_combination cs t) = map fst t"
  by (induction cs arbitrary: t) (simp_all add: count_combination_keys)

lemma count_line_lookup:
  "map_of (count_line k l t) key = map_option (\<lambda>v. v + int (matches k key l)) (map_of t key)"
  by (simp add: count_line_def matches_def fold_count_combination_lookup)

lemma count_line_keys: "map fst (count_line k l t) = map fst t"
  by (simp add: count_line_def fold_count_combination_keys)

lemma fold_count_line_lookup:
  "map_of (fold (count_line k) ls t) key
     = map_option (\<lambda>v. v + int (sum_list (map (matches k key) ls))) (map_of t key)"
proof (induction ls arbitrary: t)
  case Nil
  then show ?case by (simp add: option.map_ident)
next
  case (Cons l ls)
  show ?case
    by (cases "map_of t key") (simp_all add: Cons count_line_lookup)
qed

lemma fold_count_line_keys: "map fst (fold (count_line k) ls t) = map fst t"
  by (induction ls arbitrary: t) (simp_all add: count_line_keys)

lemma matches_itemset_key:
  assumes "transaction l" and "itemset_key k key"
  shows "matches k key l = (if set (str_split key) \<subseteq> set l then 1 else 0)"
proof -
  let ?S = "str_split key"
  note S = itemset_key_items [OF assms(2)]
  have tl: "list_all token l" and sl: "sorted_wrt (<) l"
    using assms(1) by (simp_all add: transaction_def)
  have dl: "distinct l" using sl by (simp add: strict_sorted_iff)
  have "[c \<leftarrow> combinations l k. str_join c = key] = [c \<leftarrow> combinations l k. c = ?S]"
  proof (rule filter_cong [OF refl])
    fix c assume "c \<in> set (combinations l k)"
    then have "subseq c l" by (simp add: in_combinations)
    then have "list_all token c" using tl by (rule subseq_list_all)
    then show "(str_join c = key) = (c = ?S)"
      using S(3,4) by (metis str_join_inject)
  qed
  then have "matches k key l = card ({c. c = ?S} \<inter> set (combinations l k))"
    using distinct_length_filter [OF distinct_combinations [OF dl]]
    by (simp add: matches_def)
  also have "\<dots> = (if ?S \<in> set (combinations l k) then 1 else 0)"
  proof (cases "?S \<in> set (combinations l k)")
    case True
    then have "{c. c = ?S} \<inter> set (combinations l k) = {?S}" by auto
    then show ?thesis using True by simp
  next
    case False
    then have "{c. c = ?S} \<inter> set (combinations l k) = {}" by auto
    then show ?thesis using False by simp
  qed
  also have "?S \<in> set (combinations l k) \<longleftrightarrow> set ?S \<subseteq> set l"
  proof
    assume "?S \<in> set (combinations l k)"
    then have "subseq ?S l" by (simp add: in_combinations)
    then show "set ?S \<subseteq> set l" using list_emb_set [of "(=)" ?S l] by auto
  next
    assume "set ?S \<subseteq> set l"
    moreover have "sorted_wrt (\<le>) l" using sl by (simp add: strict_sorted_iff)
    ultimately have "subseq ?S l" using S(2) by (intro sorted_subset_imp_subseq)
    then show "?S \<in> set (combinations l k)" using S(1) by (simp add: in_combinations)
  qed
  finally show ?thesis .
qed

lemma matches_other_key:
  assumes "transaction l" and "\<not> itemset_key k key"
  shows "matches k key l = 0"
proof -
  have "str_join c \<noteq> key" if "c \<in> set (combinations l k)" for c
  proof
    assume j: "str_join c = key"
    from that have sub: "subseq c l" and len: "length c = k" by (simp_all add: in_combinations)
    have "list_all token c" "sorted_wrt (<) c"
      using sub assms(1) subseq_list_all subseq_sorted_wrt by (auto simp: transaction_def)
    from itemset_key_join [OF this] show False using assms(2) j len by simp
  qed
  then show ?thesis by (simp add: matches_def)
qed

lemma sum_matches_support:
  assumes "\<forall>l \<in> set ls. transaction l" and "itemset_key k key"
  shows "sum_list (map (matches k key) ls) = support ls (set (str_split key))"
  using assms(1)
  by (induction ls) (simp_all add: support_def matches_itemset_key [OF _ assms(2)])

lemma sum_matches_zero:
  assumes "\<forall>l \<in> set ls. transaction l" and "\<not> itemset_key k key"
  shows "sum_list (map (matches k key) ls) = 0"
  using assms(1)
  by (induction ls) (simp_all add: matches_other_key [OF _ assms(2)])

text \<open>
  Claim C4, as the code has it: for every size \<open>k\<close> (2 and 3 in the pipeline) and
  transactions that are strictly increasing item lists, the counting loop leaves the
  transaction list and the keys of the candidate table as they are. The count of a key
  that is the canonical key of an itemset of size \<open>k\<close> grows by the number of
  transactions that contain the itemset, so it is that number when the count was 0
  before, as \<open>make_candidates\<close> seeds it. The count of any other key stays as it was.
  A combination whose key is not in the table changes nothing.
\<close>

theorem counting_loop_counts:
  assumes "\<forall>l \<in> set (lines st). transaction l"
  shows "lines (counting_loop k st) = lines st
    \<and> map fst (candidates (counting_loop k st)) = map fst (candidates st)
    \<and> (\<forall>key v. map_of (candidates st) key = Some v \<longrightarrow>
          map_of (candidates (counting_loop k st)) key
            = Some (if itemset_key k key
                    then v + int (support (lines st) (set (str_split key))) else v))
    \<and> (\<forall>c t. str_join c \<notin> fst ` set t \<longrightarrow> count_combination c t = t)"
proof -
  have a: "lines (counting_loop k st) = lines st" by (simp add: counting_loop_def)
  have b: "map fst (candidates (counting_loop k st)) = map fst (candidates st)"
    by (simp add: counting_loop_def fold_count_line_keys)
  have c: "map_of (candidates (counting_loop k st)) key
            = Some (if itemset_key k key
                    then v + int (support (lines st) (set (str_split key))) else v)"
    if "map_of (candidates st) key = Some v" for key v
  proof (cases "itemset_key k key")
    case True
    from sum_matches_support [OF assms True] that True show ?thesis
      by (simp add: counting_loop_def fold_count_line_lookup)
  next
    case False
    from sum_matches_zero [OF assms False] that False show ?thesis
      by (simp add: counting_loop_def fold_count_line_lookup)
  qed
  have d: "\<forall>c t. str_join c \<notin> fst ` set t \<longrightarrow> count_combination c t = t"
    using count_combination_absent by blast
  from a b c d show ?thesis by blast
qed

lemma counting_loop_example:
  "counting_loop 2
     \<lparr>lines = [[''a'', ''b''], [''a'', ''b'', ''c''], [''a'', ''c''], [''b'', ''c'']],
      candidates = [(''a b'', 0), (''a c'', 0), (''b c'', 0)]\<rparr>
   = \<lparr>lines = [[''a'', ''b''], [''a'', ''b'', ''c''], [''a'', ''c''], [''b'', ''c'']],
      candidates = [(''a b'', 2), (''a c'', 2), (''b c'', 2)]\<rparr>"
  by code_simp

lemma counting_loop_example_support:
  "support [[''a'', ''b''], [''a'', ''b'', ''c''], [''a'', ''c''], [''b'', ''c'']]
     (set (str_split ''a b'')) = 2"
  by code_simp

theorem counting_loop_counts_witness:
  "transaction [''a'', ''b''] \<and> transaction [''a'', ''b'', ''c'']
   \<and> transaction [''a'', ''c''] \<and> transaction [''b'', ''c'']
   \<and> itemset_key 2 ''a b''
   \<and> map_of (candidates (counting_loop 2
        \<lparr>lines = [[''a'', ''b''], [''a'', ''b'', ''c''], [''a'', ''c''], [''b'', ''c'']],
         candidates = [(''a b'', 0), (''a c'', 0), (''b c'', 0)]\<rparr>)) ''a b''
       = Some (0 + int (support
            [[''a'', ''b''], [''a'', ''b'', ''c''], [''a'', ''c''], [''b'', ''c'']]
            (set (str_split ''a b''))))
   \<and> support [[''a'', ''b''], [''a'', ''b'', ''c''], [''a'', ''c''], [''b'', ''c'']]
        (set (str_split ''a b'')) = 2"
proof -
  let ?st = "\<lparr>lines = [[''a'', ''b''], [''a'', ''b'', ''c''], [''a'', ''c''], [''b'', ''c'']],
         candidates = [(''a b'', 0), (''a c'', 0), (''b c'', 0)]\<rparr>"
  have t: "transaction [''a'', ''b''] \<and> transaction [''a'', ''b'', ''c'']
     \<and> transaction [''a'', ''c''] \<and> transaction [''b'', ''c'']" by code_simp
  then have h: "\<forall>l \<in> set (lines ?st). transaction l" by simp
  have k: "itemset_key 2 ''a b''" by code_simp
  have m: "map_of (candidates ?st) ''a b'' = Some 0" by simp
  from counting_loop_counts [OF h, of 2]
  have "\<forall>key v. map_of (candidates ?st) key = Some v \<longrightarrow>
          map_of (candidates (counting_loop 2 ?st)) key
            = Some (if itemset_key 2 key
                    then v + int (support (lines ?st) (set (str_split key))) else v)"
    by (rule conjunct1 [OF conjunct2 [OF conjunct2]])
  with m have "map_of (candidates (counting_loop 2 ?st)) ''a b''
            = Some (if itemset_key 2 ''a b''
                    then 0 + int (support (lines ?st) (set (str_split ''a b''))) else 0)"
    by blast
  with k have "map_of (candidates (counting_loop 2 ?st)) ''a b''
       = Some (0 + int (support (lines ?st) (set (str_split ''a b''))))"
    by (simp only: if_True)
  then show ?thesis using t k counting_loop_example_support by simp
qed

theorem counting_loop_self_join_counterexample:
  "prune (count_singles (replicate 100 [''a'', ''b''])) = [(''a'', 100), (''b'', 100)]
   \<and> make_candidates [(''a'', 100), (''b'', 100)]
       = Inr [(''a a'', 0), (''a b'', 0), (''b b'', 0)]
   \<and> candidates (counting_loop 2
        \<lparr>lines = replicate 100 [''a'', ''b''],
         candidates = [(''a a'', 0), (''a b'', 0), (''b b'', 0)]\<rparr>)
       = [(''a a'', 0), (''a b'', 100), (''b b'', 0)]
   \<and> transaction [''a'', ''b'']
   \<and> support (replicate 100 [''a'', ''b'']) (set (str_split ''a a'')) = 100"
  by code_simp

section \<open>Results about the pipeline\<close>

lemma support_mono: "S \<subseteq> S' \<Longrightarrow> support ls S' \<le> support ls S"
proof (induction ls)
  case Nil
  then show ?case by (simp add: support_def)
next
  case (Cons l ls)
  then show ?case by (auto simp: support_def)
qed

lemma support_pos_mem:
  assumes "0 < support ls S"
  shows "\<exists>l \<in> set ls. S \<subseteq> set l"
proof -
  from assms have "[l \<leftarrow> ls. S \<subseteq> set l] \<noteq> []" by (auto simp: support_def)
  then show ?thesis by (metis filter_False)
qed

lemma count_item_lookup:
  "map_of (count_item x s) = (map_of s)(x \<mapsto> count_of s x + 1)"
proof (cases "x \<in> fst ` set s")
  case True
  then obtain v where "map_of s x = Some v"
    by (metis map_of_eq_None_iff not_Some_eq)
  then show ?thesis using True by (simp add: count_item_def count_of_def update_conv')
next
  case False
  then have "map_of s x = None" by (simp add: map_of_eq_None_iff)
  then show ?thesis using False
    by (simp add: count_item_def count_of_def update_conv' Let_def)
qed

lemma count_item_distinct: "distinct (map fst s) \<Longrightarrow> distinct (map fst (count_item x s))"
  by (auto simp: count_item_def Let_def distinct_update split: option.splits)

lemma fold_count_item_lookup:
  "distinct l \<Longrightarrow> map_of (fold count_item l s) y
     = (if y \<in> set l then Some (count_of s y + 1) else map_of s y)"
proof (induction l arbitrary: s)
  case Nil
  then show ?case by simp
next
  case (Cons x l)
  then have IH: "map_of (fold count_item l (count_item x s)) y
     = (if y \<in> set l then Some (count_of (count_item x s) y + 1) else map_of (count_item x s) y)"
    by simp
  have c: "count_of (count_item x s) y = (if y = x then count_of s x + 1 else count_of s y)"
    by (simp add: count_of_def count_item_lookup)
  show ?case using Cons.prems IH c by (auto simp: count_item_lookup)
qed

lemma fold_count_item_distinct:
  "distinct (map fst s) \<Longrightarrow> distinct (map fst (fold count_item l s))"
  by (induction l arbitrary: s) (simp_all add: count_item_distinct)

lemma fold_lines_lookup:
  assumes "\<forall>l \<in> set ls. distinct l"
  shows "map_of (fold (\<lambda>line singles. fold count_item line singles) ls s) y
     = (if \<exists>l \<in> set ls. y \<in> set l then Some (count_of s y + int (support ls {y}))
        else map_of s y)"
  using assms
proof (induction ls arbitrary: s)
  case Nil
  then show ?case by simp
next
  case (Cons l ls)
  let ?s1 = "fold count_item l s"
  have d: "distinct l" using Cons.prems by simp
  have IH: "map_of (fold (\<lambda>line singles. fold count_item line singles) ls ?s1) y
     = (if \<exists>l \<in> set ls. y \<in> set l then Some (count_of ?s1 y + int (support ls {y}))
        else map_of ?s1 y)"
    using Cons by simp
  have c: "count_of ?s1 y = (if y \<in> set l then count_of s y + 1 else count_of s y)"
    by (simp add: count_of_def fold_count_item_lookup [OF d])
  show ?case
    using IH c by (auto simp: support_def fold_count_item_lookup [OF d])
qed

lemma fold_lines_distinct:
  "distinct (map fst s) \<Longrightarrow>
   distinct (map fst (fold (\<lambda>line singles. fold count_item line singles) ls s))"
  by (induction ls arbitrary: s) (simp_all add: fold_count_item_distinct)

lemma count_singles_lookup:
  assumes "\<forall>l \<in> set ls. distinct l"
  shows "map_of (count_singles ls) y
     = (if \<exists>l \<in> set ls. y \<in> set l then Some (int (support ls {y})) else None)"
  using fold_lines_lookup [OF assms, of "[]" y]
  by (simp add: count_singles_def count_of_def)

lemma count_singles_distinct: "distinct (map fst (count_singles ls))"
  by (simp add: count_singles_def fold_lines_distinct)

lemma transaction_distinct: "transaction l \<Longrightarrow> distinct l"
  by (simp add: transaction_def strict_sorted_iff)

lemma str_split_token: "token w \<Longrightarrow> str_split w = [w]"
  using str_split_join [of "[w]"] by simp

lemma itemset_key_1: "itemset_key 1 key \<longleftrightarrow> token key"
proof
  assume k: "itemset_key 1 key"
  from itemset_key_items [OF k] obtain w where w: "str_split key = [w]"
    by (cases "str_split key") auto
  with itemset_key_items(3,4) [OF k] show "token key" by simp
next
  assume "token key"
  then show "itemset_key 1 key"
    using itemset_key_join [of "[key]"] by simp
qed

lemma FREQ_THRES_pos: "0 < FREQ_THRES"
  by (simp add: FREQ_THRES_def)

lemma singles_level:
  assumes "\<forall>l \<in> set ls. transaction l"
  shows "frequent_level 1 ls (prune (count_singles ls))"
    and "complete_level 1 ls (prune (count_singles ls))"
proof -
  have d: "\<forall>l \<in> set ls. distinct l" using assms transaction_distinct by blast
  note look = count_singles_lookup [OF d]
  note pl = prune_lookup [OF count_singles_distinct]
  have "itemset_key 1 key \<and> v = int (support ls (set (str_split key))) \<and> FREQ_THRES \<le> v"
    if "map_of (prune (count_singles ls)) key = Some v" for key v
  proof -
    from that have m: "map_of (count_singles ls) key = Some v" and v: "FREQ_THRES \<le> v"
      by (auto simp: pl split: option.splits if_splits)
    from m obtain l where l: "l \<in> set ls" "key \<in> set l"
      and vs: "v = int (support ls {key})"
      by (auto simp: look split: if_splits)
    have "token key" using assms l by (auto simp: transaction_def list_all_iff)
    then show ?thesis
      using vs v itemset_key_1 [of key] by (simp add: str_split_token)
  qed
  then show "frequent_level 1 ls (prune (count_singles ls))"
    unfolding frequent_level_def
    using prune_distinct [OF count_singles_distinct] by blast
  show "complete_level 1 ls (prune (count_singles ls))"
    unfolding complete_level_def
  proof (intro allI impI)
    fix key
    assume a: "itemset_key 1 key \<and> FREQ_THRES \<le> int (support ls (set (str_split key)))"
    then have t: "token key" using itemset_key_1 [of key] by simp
    then have s: "FREQ_THRES \<le> int (support ls {key})" using a by (simp add: str_split_token)
    then have "0 < support ls {key}" using FREQ_THRES_pos by linarith
    from support_pos_mem [OF this] have "\<exists>l \<in> set ls. key \<in> set l" by simp
    then have "map_of (count_singles ls) key = Some (int (support ls {key}))"
      by (simp add: look)
    then have "map_of (prune (count_singles ls)) key = Some (int (support ls {key}))"
      using s by (simp add: pl)
    then show "key \<in> fst ` set (prune (count_singles ls))"
      by (metis map_of_eq_None_iff option.distinct(1))
  qed
qed

lemma counting_loop_lookup:
  assumes "\<forall>l \<in> set ls. transaction l"
  shows "map_of (candidates (counting_loop k \<lparr>lines = ls, candidates = t\<rparr>)) key
     = map_option (\<lambda>v. if itemset_key k key
                       then v + int (support ls (set (str_split key))) else v) (map_of t key)"
proof (cases "itemset_key k key")
  case True
  from sum_matches_support [OF assms True] True show ?thesis
    by (simp add: counting_loop_def fold_count_line_lookup)
next
  case False
  then show ?thesis
    by (simp add: counting_loop_def fold_count_line_lookup sum_matches_zero [OF assms False]
        option.map_ident)
qed

lemma counting_loop_keys:
  "map fst (candidates (counting_loop k \<lparr>lines = ls, candidates = t\<rparr>)) = map fst t"
  by (simp add: counting_loop_def fold_count_line_keys)

lemma frequent_level_keys:
  assumes "frequent_level k ls t" and "key \<in> fst ` set t"
  shows "itemset_key k key" and "length (str_split key) = k"
    and "map_of t key = Some (int (support ls (set (str_split key))))"
    and "FREQ_THRES \<le> int (support ls (set (str_split key)))"
proof -
  from assms(2) obtain v where v: "map_of t key = Some v"
    by (metis map_of_eq_None_iff not_Some_eq)
  with assms(1) have *: "itemset_key k key" "v = int (support ls (set (str_split key)))"
    "FREQ_THRES \<le> v" by (auto simp: frequent_level_def)
  show "itemset_key k key" by fact
  then show "length (str_split key) = k" by (rule itemset_key_items(1))
  show "map_of t key = Some (int (support ls (set (str_split key))))" using v * by simp
  show "FREQ_THRES \<le> int (support ls (set (str_split key)))" using * by simp
qed

lemma complete_level_subseq:
  assumes "complete_level k ls t" and "itemset_key n key"
    and "FREQ_THRES \<le> int (support ls (set (str_split key)))"
    and "subseq c (str_split key)" and "length c = k"
  shows "str_join c \<in> fst ` set t" and "str_split (str_join c) = c"
proof -
  note S = itemset_key_items [OF assms(2)]
  have tc: "list_all token c" using assms(4) S(4) by (rule subseq_list_all)
  have sc: "sorted_wrt (<) c" using assms(4) S(2) by (rule subseq_sorted_wrt)
  show sp: "str_split (str_join c) = c" using tc by (rule str_split_join)
  have ik: "itemset_key k (str_join c)" using itemset_key_join [OF tc sc] assms(5) by simp
  have "set c \<subseteq> set (str_split key)" using assms(4) list_emb_set [of "(=)" c] by auto
  then have "support ls (set (str_split key)) \<le> support ls (set c)" by (rule support_mono)
  then have "FREQ_THRES \<le> int (support ls (set (str_split (str_join c))))"
    using assms(3) sp by simp
  with ik assms(1) show "str_join c \<in> fst ` set t" by (auto simp: complete_level_def)
qed

lemma next_level_correct:
  assumes tr: "\<forall>l \<in> set ls. transaction l" and k: "0 < k"
    and fl: "frequent_level k ls prev" and cl: "complete_level k ls prev"
  shows "\<exists>t. next_level (Suc k) ls prev = Inr t
     \<and> frequent_level (Suc k) ls t \<and> complete_level (Suc k) ls t"
proof -
  have u: "\<forall>key \<in> fst ` set prev. length (str_split key) = k"
    using frequent_level_keys(2) [OF fl] by blast
  from make_candidates_keys [OF k u] obtain t0 where
    t0: "make_candidates prev = Inr t0" "zero_table t0" by blast
  let ?c = "candidates (counting_loop (Suc k) \<lparr>lines = ls, candidates = t0\<rparr>)"
  let ?t = "prune ?c"
  have nl: "next_level (Suc k) ls prev = Inr ?t" by (simp add: next_level_def t0(1))
  have dc: "distinct (map fst ?c)"
    using t0(2) by (simp add: counting_loop_keys zero_table_def)
  note pl = prune_lookup [OF dc]
  note look = counting_loop_lookup [OF tr, of "Suc k" t0]
  have snd: "itemset_key (Suc k) key \<and> v = int (support ls (set (str_split key)))
      \<and> FREQ_THRES \<le> v" if "map_of ?t key = Some v" for key v
  proof -
    from that have m: "map_of ?c key = Some v" and v: "FREQ_THRES \<le> v"
      by (auto simp: pl split: option.splits if_splits)
    from m obtain v0 where v0: "map_of t0 key = Some v0"
      and vv: "v = (if itemset_key (Suc k) key
                    then v0 + int (support ls (set (str_split key))) else v0)"
      by (auto simp: look)
    have "key \<in> fst ` set t0" using v0 by (metis map_of_eq_None_iff option.distinct(1))
    from zero_table_lookup [OF t0(2) this] v0 have "v0 = 0" by simp
    with vv v FREQ_THRES_pos show ?thesis by (auto split: if_splits)
  qed
  have f: "frequent_level (Suc k) ls ?t"
    unfolding frequent_level_def using snd prune_distinct [OF dc] by blast
  have cmp: "key \<in> fst ` set ?t"
    if ik: "itemset_key (Suc k) key"
      and sup: "FREQ_THRES \<le> int (support ls (set (str_split key)))" for key
  proof -
    note S = itemset_key_items [OF ik]
    from S(1) obtain S' y where S1: "str_split key = S' @ [y]" and l1: "length S' = k"
      by (cases "str_split key" rule: rev_cases) auto
    from k l1 obtain p x where S2: "S' = p @ [x]" and l2: "length p + 1 = k"
      by (cases S' rule: rev_cases) auto
    have Sp: "str_split key = p @ [x, y]" using S1 S2 by simp
    have "x < y" using S(2) Sp by (simp add: sorted_wrt_append)
    then have xy: "x \<le> y" by (rule order.strict_implies_order)
    have sa: "subseq (p @ [x]) (str_split key)" unfolding Sp by (simp add: subseq_append')
    have sb: "subseq (p @ [y]) (str_split key)" unfolding Sp by (simp add: subseq_append')
    have a: "str_join (p @ [x]) \<in> fst ` set prev"
      using complete_level_subseq(1) [OF cl ik sup sa] l2 by simp
    have b: "str_join (p @ [y]) \<in> fst ` set prev"
      using complete_level_subseq(1) [OF cl ik sup sb] l2 by simp
    have tk: "list_all token (p @ [x, y])" using S(4) Sp by simp
    from make_candidates_join [OF k u l2 xy tk a b] t0(1)
    have "map_of t0 (str_join (p @ [x, y])) = Some 0" by simp
    then have "map_of t0 key = Some 0" using S(3) Sp by simp
    then have "map_of ?c key = Some (int (support ls (set (str_split key))))"
      using ik by (simp add: look)
    then have "map_of ?t key = Some (int (support ls (set (str_split key))))"
      using sup by (simp add: pl)
    then show ?thesis by (metis map_of_eq_None_iff option.distinct(1))
  qed
  have c: "complete_level (Suc k) ls ?t"
    unfolding complete_level_def using cmp by blast
  from nl f c show ?thesis by blast
qed

lemma append_rules_succeeds:
  assumes "\<forall>c \<in> set cs. \<exists>r. rule_of_combination args items freq c = Inr r"
  shows "\<exists>out. append_rules args items freq cs acc = Inr out"
  using assms
proof (induction cs arbitrary: acc)
  case Nil
  then show ?case by simp
next
  case (Cons c cs)
  then obtain r where r: "rule_of_combination args items freq c = Inr r" by auto
  from Cons have "\<exists>out. append_rules args items freq cs (acc @ [r]) = Inr out" by simp
  then show ?case using r by simp
qed

lemma rules_loop_succeeds:
  assumes "\<forall>(itemset, freq) \<in> set tbl. \<forall>c \<in> set (proper_combinations (str_split itemset)).
      \<exists>r. rule_of_combination args (str_split itemset) freq c = Inr r"
  shows "\<exists>out. rules_loop tbl args acc = Inr out"
  using assms
proof (induction tbl arbitrary: acc)
  case Nil
  then show ?case by simp
next
  case (Cons p tbl)
  obtain itemset freq where p: "p = (itemset, freq)" by (cases p)
  from Cons.prems p have "\<forall>c \<in> set (proper_combinations (str_split itemset)).
      \<exists>r. rule_of_combination args (str_split itemset) freq c = Inr r" by simp
  from append_rules_succeeds [OF this] obtain mid where
    mid: "append_rules args (str_split itemset) freq
            (proper_combinations (str_split itemset)) acc = Inr mid" by blast
  from Cons.prems have "\<forall>(itemset, freq) \<in> set tbl.
      \<forall>c \<in> set (proper_combinations (str_split itemset)).
      \<exists>r. rule_of_combination args (str_split itemset) freq c = Inr r" by simp
  from Cons.IH [OF this] obtain out where "rules_loop tbl args mid = Inr out" by blast
  then show ?case using p mid by simp
qed

lemma rule_of_combination_level:
  assumes top: "frequent_level n ls tbl" and mem: "(key, freq) \<in> set tbl"
    and args: "\<forall>j < length args.
        frequent_level (Suc j) ls (args ! j) \<and> complete_level (Suc j) ls (args ! j)"
    and n: "n \<le> Suc (length args)"
    and c: "c \<in> set (proper_combinations (str_split key))"
  shows "\<exists>r. rule_of_combination args (str_split key) freq c = Inr r
     \<and> FREQ_THRES \<le> all_freq r \<and> all_freq r \<le> left_freq r
     \<and> list_get args (int (length (left r)) - 1) = Inr (args ! (length (left r) - 1))
     \<and> dict_get (args ! (length (left r) - 1)) (str_join (left r)) = Inr (left_freq r)"
proof -
  have d: "distinct (map fst tbl)" using top by (simp add: frequent_level_def)
  have k: "key \<in> fst ` set tbl" using mem by force
  have "map_of tbl key = Some freq" using d mem by simp
  with frequent_level_keys [OF top k] have
    ik: "itemset_key n key" and fr: "freq = int (support ls (set (str_split key)))"
    and th: "FREQ_THRES \<le> int (support ls (set (str_split key)))" by simp_all
  from c have sub: "subseq c (str_split key)" and ne: "c \<noteq> []"
    and len: "length c < length (str_split key)" by (simp_all add: in_proper_combinations)
  let ?j = "length c - 1"
  have lc: "length c = Suc ?j" using ne by (cases c) simp_all
  have ln: "length (str_split key) = n" using ik by (rule itemset_key_items(1))
  have j: "?j < length args" using len ln n lc by linarith
  have ij: "int (length c) - 1 = int ?j" using lc by linarith
  have lg: "list_get args (int (length c) - 1) = Inr (args ! ?j)"
    unfolding ij using j by (simp add: list_get_def)
  from args j have fj: "frequent_level (Suc ?j) ls (args ! ?j)"
    and cj: "complete_level (Suc ?j) ls (args ! ?j)" by simp_all
  from complete_level_subseq [OF cj ik th sub lc] have
    kj: "str_join c \<in> fst ` set (args ! ?j)" and sp: "str_split (str_join c) = c" by simp_all
  from frequent_level_keys(3) [OF fj kj] sp
  have look: "map_of (args ! ?j) (str_join c) = Some (int (support ls (set c)))" by simp
  then have dg: "dict_get (args ! ?j) (str_join c) = Inr (int (support ls (set c)))"
    by (simp add: dict_get_def)
  let ?r = "\<lparr>left = c, right = [item \<leftarrow> str_split key. item \<notin> set c],
            all_freq = freq, left_freq = int (support ls (set c))\<rparr>"
  have r: "rule_of_combination args (str_split key) freq c = Inr ?r"
    using lg dg by (simp add: rule_of_combination_def)
  have "set c \<subseteq> set (str_split key)" using sub list_emb_set [of "(=)" c] by auto
  then have "support ls (set (str_split key)) \<le> support ls (set c)" by (rule support_mono)
  then have "all_freq ?r \<le> left_freq ?r" using fr by simp
  moreover have "FREQ_THRES \<le> all_freq ?r" using th fr by simp
  ultimately show ?thesis using r lg dg by (intro exI [of _ ?r]) simp
qed

lemma make_rules_level:
  assumes top: "frequent_level n ls tbl"
    and args: "\<forall>j < length args.
        frequent_level (Suc j) ls (args ! j) \<and> complete_level (Suc j) ls (args ! j)"
    and n: "n \<le> Suc (length args)"
  shows "\<exists>rules. make_rules tbl args = Inr rules
     \<and> (\<forall>r \<in> set rules. FREQ_THRES \<le> all_freq r \<and> all_freq r \<le> left_freq r
          \<and> list_get args (int (length (left r)) - 1) = Inr (args ! (length (left r) - 1))
          \<and> dict_get (args ! (length (left r) - 1)) (str_join (left r)) = Inr (left_freq r))"
proof -
  have ok: "\<forall>(itemset, freq) \<in> set tbl. \<forall>c \<in> set (proper_combinations (str_split itemset)).
      \<exists>r. rule_of_combination args (str_split itemset) freq c = Inr r"
    using rule_of_combination_level [OF top _ args n] by blast
  from rules_loop_succeeds [OF ok, of "[]"] obtain rules where
    rules: "make_rules tbl args = Inr rules" by (auto simp: make_rules_def)
  then have "rules_loop tbl args [] = Inr rules" by (simp add: make_rules_def)
  from rules_loop_result [OF this] have src: "\<forall>r \<in> set rules. \<exists>(itemset, freq) \<in> set tbl.
           \<exists>c \<in> set (proper_combinations (str_split itemset)).
             rule_of_combination args (str_split itemset) freq c = Inr r" by auto
  have "FREQ_THRES \<le> all_freq r \<and> all_freq r \<le> left_freq r
          \<and> list_get args (int (length (left r)) - 1) = Inr (args ! (length (left r) - 1))
          \<and> dict_get (args ! (length (left r) - 1)) (str_join (left r)) = Inr (left_freq r)"
    if "r \<in> set rules" for r
  proof -
    from src that obtain itemset freq c where
      m: "(itemset, freq) \<in> set tbl" and c: "c \<in> set (proper_combinations (str_split itemset))"
      and r: "rule_of_combination args (str_split itemset) freq c = Inr r" by fast
    from rule_of_combination_level [OF top m args n c] r show ?thesis by simp
  qed
  then show ?thesis using rules by blast
qed

lemma mine_stages:
  assumes "make_candidates (prune (count_singles ls)) = Inr pairs0"
    and "make_rules (prune (candidates (counting_loop 2 \<lparr>lines = ls, candidates = pairs0\<rparr>)))
           [prune (count_singles ls)] = Inr rules2"
    and "sorted_reverse rules2 = Inr ranked2"
    and "make_candidates (prune (candidates (counting_loop 2 \<lparr>lines = ls, candidates = pairs0\<rparr>)))
           = Inr triples0"
    and "make_rules (prune (candidates (counting_loop 3 \<lparr>lines = ls, candidates = triples0\<rparr>)))
           [prune (count_singles ls),
            prune (candidates (counting_loop 2 \<lparr>lines = ls, candidates = pairs0\<rparr>))]
           = Inr rules3"
    and "sorted_reverse rules3 = Inr ranked3"
  shows "mine ls = Inr \<lparr>singles = prune (count_singles ls),
      pairs = prune (candidates (counting_loop 2 \<lparr>lines = ls, candidates = pairs0\<rparr>)),
      pair_rules = ranked2,
      triples = prune (candidates (counting_loop 3 \<lparr>lines = ls, candidates = triples0\<rparr>)),
      triple_rules = ranked3\<rparr>"
  using assms by (simp add: mine_def Let_def)

lemma sorted_reverse_sound:
  assumes "\<forall>r \<in> set rules. sound_rule args r"
  shows "\<exists>ranked. sorted_reverse rules = Inr ranked \<and> mset ranked = mset rules"
proof -
  have "\<forall>r \<in> set rules. left_freq r \<noteq> 0"
    using assms FREQ_THRES_pos by (fastforce simp: sound_rule_def)
  then have "well_formed rules" by (simp add: well_formed_set)
  from sorted_reverse_result [OF this] show ?thesis by blast
qed

lemma mine_sound:
  assumes tr: "\<forall>l \<in> set ls. transaction l"
  shows "\<exists>m rules2 rules3. mine ls = Inr m
     \<and> make_rules (pairs m) [singles m] = Inr rules2
     \<and> sorted_reverse rules2 = Inr (pair_rules m)
     \<and> mset (pair_rules m) = mset rules2
     \<and> (\<forall>r \<in> set rules2. sound_rule [singles m] r)
     \<and> make_rules (triples m) [singles m, pairs m] = Inr rules3
     \<and> sorted_reverse rules3 = Inr (triple_rules m)
     \<and> mset (triple_rules m) = mset rules3
     \<and> (\<forall>r \<in> set rules3. sound_rule [singles m, pairs m] r)"
proof -
  let ?s = "prune (count_singles ls)"
  note s = singles_level [OF tr]
  from next_level_correct [OF tr _ s, simplified] obtain p where
    p: "next_level 2 ls ?s = Inr p" "frequent_level 2 ls p" "complete_level 2 ls p"
    by (auto simp: numeral_2_eq_2)
  from p(1) obtain pairs0 where p0: "make_candidates ?s = Inr pairs0"
    and pp: "p = prune (candidates (counting_loop 2 \<lparr>lines = ls, candidates = pairs0\<rparr>))"
    by (auto simp: next_level_def split: sum.splits)
  have "(0::nat) < 2" by simp
  from next_level_correct [OF tr this p(2,3)] obtain t where
    t: "next_level 3 ls p = Inr t" "frequent_level 3 ls t"
    by (auto simp: numeral_3_eq_3 numeral_2_eq_2)
  from t(1) obtain triples0 where t0: "make_candidates p = Inr triples0"
    and tt: "t = prune (candidates (counting_loop 3 \<lparr>lines = ls, candidates = triples0\<rparr>))"
    by (auto simp: next_level_def split: sum.splits)
  have a2: "\<forall>j < length [?s].
        frequent_level (Suc j) ls ([?s] ! j) \<and> complete_level (Suc j) ls ([?s] ! j)"
    using s by simp
  have a3: "\<forall>j < length [?s, p].
        frequent_level (Suc j) ls ([?s, p] ! j) \<and> complete_level (Suc j) ls ([?s, p] ! j)"
    using s p(2,3) by (auto simp: less_Suc_eq numeral_2_eq_2)
  have n2: "2 \<le> Suc (length [?s])" by simp
  have n3: "3 \<le> Suc (length [?s, p])" by simp
  from make_rules_level [OF p(2) a2 n2] obtain rules2 where
    r2: "make_rules p [?s] = Inr rules2" "\<forall>r \<in> set rules2. sound_rule [?s] r"
    unfolding sound_rule_def by blast
  from make_rules_level [OF t(2) a3 n3] obtain rules3 where
    r3: "make_rules t [?s, p] = Inr rules3" "\<forall>r \<in> set rules3. sound_rule [?s, p] r"
    unfolding sound_rule_def by blast
  from sorted_reverse_sound [OF r2(2)] obtain ranked2 where
    k2: "sorted_reverse rules2 = Inr ranked2" "mset ranked2 = mset rules2" by blast
  from sorted_reverse_sound [OF r3(2)] obtain ranked3 where
    k3: "sorted_reverse rules3 = Inr ranked3" "mset ranked3 = mset rules3" by blast
  let ?m = "\<lparr>singles = ?s, pairs = p, pair_rules = ranked2,
             triples = t, triple_rules = ranked3\<rparr>"
  have "mine ls = Inr ?m"
    using mine_stages [OF p0 r2(1) [unfolded pp] k2(1) t0 [unfolded pp]
        r3(1) [unfolded tt pp] k3(1)]
    by (simp add: pp tt)
  then show ?thesis using r2 r3 k2 k3 by (intro exI [of _ ?m] exI [of _ rules2] exI [of _ rules3]) simp
qed

lemma sound_rule_confidence:
  assumes "sound_rule args r"
  shows "0 < all_freq r" and "all_freq r \<le> left_freq r" and "FREQ_THRES \<le> left_freq r"
    and "0 < left_freq r"
    and "\<exists>c. confidence r = Inr c \<and> 0 < c \<and> c \<le> 1"
proof -
  from assms have a: "FREQ_THRES \<le> all_freq r" and b: "all_freq r \<le> left_freq r"
    by (simp_all add: sound_rule_def)
  show p: "0 < all_freq r" using a FREQ_THRES_pos by linarith
  show "all_freq r \<le> left_freq r" by fact
  show "FREQ_THRES \<le> left_freq r" using a b by linarith
  show q: "0 < left_freq r" using p b by linarith
  have "confidence r = Inr (of_int (all_freq r) / of_int (left_freq r))"
    using q by (simp add: confidence_def)
  moreover have "(0::rat) < of_int (all_freq r) / of_int (left_freq r)"
    using p q by simp
  moreover have "(of_int (all_freq r) :: rat) / of_int (left_freq r) \<le> 1"
    using b q by simp
  ultimately show "\<exists>c. confidence r = Inr c \<and> 0 < c \<and> c \<le> 1" by blast
qed

lemma mine_example:
  "mine (replicate 100 [''a'', ''b'', ''c''])
   = Inr \<lparr>singles = [(''a'', 100), (''b'', 100), (''c'', 100)],
          pairs = [(''a b'', 100), (''a c'', 100), (''b c'', 100)],
          pair_rules =
            [\<lparr>left = [''a''], right = [''b''], all_freq = 100, left_freq = 100\<rparr>,
             \<lparr>left = [''a''], right = [''c''], all_freq = 100, left_freq = 100\<rparr>,
             \<lparr>left = [''b''], right = [''a''], all_freq = 100, left_freq = 100\<rparr>,
             \<lparr>left = [''b''], right = [''c''], all_freq = 100, left_freq = 100\<rparr>,
             \<lparr>left = [''c''], right = [''a''], all_freq = 100, left_freq = 100\<rparr>,
             \<lparr>left = [''c''], right = [''b''], all_freq = 100, left_freq = 100\<rparr>],
          triples = [(''a b c'', 100)],
          triple_rules =
            [\<lparr>left = [''a''], right = [''b'', ''c''], all_freq = 100, left_freq = 100\<rparr>,
             \<lparr>left = [''a'', ''b''], right = [''c''], all_freq = 100, left_freq = 100\<rparr>,
             \<lparr>left = [''a'', ''c''], right = [''b''], all_freq = 100, left_freq = 100\<rparr>,
             \<lparr>left = [''b''], right = [''a'', ''c''], all_freq = 100, left_freq = 100\<rparr>,
             \<lparr>left = [''b'', ''c''], right = [''a''], all_freq = 100, left_freq = 100\<rparr>,
             \<lparr>left = [''c''], right = [''a'', ''b''], all_freq = 100, left_freq = 100\<rparr>]\<rparr>"
  by code_simp

lemma example_transactions:
  "\<forall>l \<in> set (replicate 100 [''a'', ''b'', ''c'']). transaction l"
proof -
  have "transaction [''a'', ''b'', ''c'']" by code_simp
  then show ?thesis by simp
qed

text \<open>
  Claim C5: on transactions that are sorted and free of duplicates the pipeline runs to
  its end without an error. The rules it ranks are the ones \<open>make_rules\<close> returns for
  the pruned pairs with the pruned singles, and for the pruned triples with the pruned
  singles and pairs. For each of them the look-up of the antecedent finds the table of
  the antecedent's size and the antecedent's key in it, and the value found, the rule's
  \<open>left_freq\<close>, is at least \<open>FREQ_THRES\<close>, which is positive: no \<open>KeyError\<close>, no
  \<open>IndexError\<close>, and the confidence is defined.
\<close>

theorem mine_lookups_succeed:
  assumes "\<forall>l \<in> set ls. transaction l"
  shows "0 < FREQ_THRES
     \<and> (\<exists>m rules2 rules3. mine ls = Inr m
          \<and> make_rules (pairs m) [singles m] = Inr rules2
          \<and> mset (pair_rules m) = mset rules2
          \<and> make_rules (triples m) [singles m, pairs m] = Inr rules3
          \<and> mset (triple_rules m) = mset rules3
          \<and> (\<forall>r \<in> set rules2. \<exists>level c.
                list_get [singles m] (int (length (left r)) - 1) = Inr level
                \<and> dict_get level (str_join (left r)) = Inr (left_freq r)
                \<and> FREQ_THRES \<le> left_freq r \<and> confidence r = Inr c)
          \<and> (\<forall>r \<in> set rules3. \<exists>level c.
                list_get [singles m, pairs m] (int (length (left r)) - 1) = Inr level
                \<and> dict_get level (str_join (left r)) = Inr (left_freq r)
                \<and> FREQ_THRES \<le> left_freq r \<and> confidence r = Inr c))"
proof -
  from mine_sound [OF assms] obtain m rules2 rules3 where
    m: "mine ls = Inr m"
      "make_rules (pairs m) [singles m] = Inr rules2"
      "mset (pair_rules m) = mset rules2"
      "\<forall>r \<in> set rules2. sound_rule [singles m] r"
      "make_rules (triples m) [singles m, pairs m] = Inr rules3"
      "mset (triple_rules m) = mset rules3"
      "\<forall>r \<in> set rules3. sound_rule [singles m, pairs m] r" by blast
  have found: "\<exists>level c. list_get args (int (length (left r)) - 1) = Inr level
                \<and> dict_get level (str_join (left r)) = Inr (left_freq r)
                \<and> FREQ_THRES \<le> left_freq r \<and> confidence r = Inr c"
    if "sound_rule args r" for args r
    using sound_rule_confidence(3,5) [OF that] that by (auto simp: sound_rule_def)
  have "\<forall>r \<in> set rules2. \<exists>level c.
                list_get [singles m] (int (length (left r)) - 1) = Inr level
                \<and> dict_get level (str_join (left r)) = Inr (left_freq r)
                \<and> FREQ_THRES \<le> left_freq r \<and> confidence r = Inr c"
    using m(4) found by blast
  moreover have "\<forall>r \<in> set rules3. \<exists>level c.
                list_get [singles m, pairs m] (int (length (left r)) - 1) = Inr level
                \<and> dict_get level (str_join (left r)) = Inr (left_freq r)
                \<and> FREQ_THRES \<le> left_freq r \<and> confidence r = Inr c"
    using m(7) found by blast
  ultimately show ?thesis using m(1,2,3,5,6) FREQ_THRES_pos by blast
qed

theorem mine_lookups_succeed_witness:
  "transaction [''a'', ''b'', ''c'']
   \<and> (\<exists>m rules2 rules3. mine (replicate 100 [''a'', ''b'', ''c'']) = Inr m
        \<and> make_rules (pairs m) [singles m] = Inr rules2 \<and> length rules2 = 6
        \<and> list_all (\<lambda>r. FREQ_THRES \<le> left_freq r) rules2
        \<and> make_rules (triples m) [singles m, pairs m] = Inr rules3 \<and> length rules3 = 6
        \<and> list_all (\<lambda>r. FREQ_THRES \<le> left_freq r) rules3)"
proof -
  let ?ls = "replicate 100 [''a'', ''b'', ''c'']"
  have t: "transaction [''a'', ''b'', ''c'']" by code_simp
  from mine_lookups_succeed [OF example_transactions] obtain m rules2 rules3 where
    m: "mine ?ls = Inr m"
      "make_rules (pairs m) [singles m] = Inr rules2"
      "mset (pair_rules m) = mset rules2"
      "make_rules (triples m) [singles m, pairs m] = Inr rules3"
      "mset (triple_rules m) = mset rules3"
      "\<forall>r \<in> set rules2. \<exists>level c.
                list_get [singles m] (int (length (left r)) - 1) = Inr level
                \<and> dict_get level (str_join (left r)) = Inr (left_freq r)
                \<and> FREQ_THRES \<le> left_freq r \<and> confidence r = Inr c"
      "\<forall>r \<in> set rules3. \<exists>level c.
                list_get [singles m, pairs m] (int (length (left r)) - 1) = Inr level
                \<and> dict_get level (str_join (left r)) = Inr (left_freq r)
                \<and> FREQ_THRES \<le> left_freq r \<and> confidence r = Inr c"
    by blast
  have l2: "length (pair_rules m) = 6" and l3: "length (triple_rules m) = 6"
    using m(1) mine_example by auto
  have "length rules2 = 6" using l2 m(3) by (metis mset_eq_length)
  moreover have "length rules3 = 6" using l3 m(5) by (metis mset_eq_length)
  moreover have "list_all (\<lambda>r. FREQ_THRES \<le> left_freq r) rules2"
    using m(6) by (auto simp: list_all_iff)
  moreover have "list_all (\<lambda>r. FREQ_THRES \<le> left_freq r) rules3"
    using m(7) by (auto simp: list_all_iff)
  ultimately show ?thesis using t m(1,2,4) by blast
qed

text \<open>
  Claim C6 (confidence bounds): every pair rule and every triple rule that the pipeline
  ranks, on transactions that are sorted and free of duplicates, has
  \<open>0 < all_freq \<le> left_freq\<close>, so its confidence exists and lies in \<open>(0, 1]\<close>.
\<close>

theorem mine_confidence_bounds:
  assumes "\<forall>l \<in> set ls. transaction l"
  shows "\<exists>m. mine ls = Inr m
     \<and> (\<forall>r \<in> set (pair_rules m) \<union> set (triple_rules m).
          0 < all_freq r \<and> all_freq r \<le> left_freq r
          \<and> (\<exists>c. confidence r = Inr c \<and> 0 < c \<and> c \<le> 1))"
proof -
  from mine_sound [OF assms] obtain m rules2 rules3 where
    m: "mine ls = Inr m"
      "mset (pair_rules m) = mset rules2"
      "\<forall>r \<in> set rules2. sound_rule [singles m] r"
      "mset (triple_rules m) = mset rules3"
      "\<forall>r \<in> set rules3. sound_rule [singles m, pairs m] r" by blast
  have s2: "set (pair_rules m) = set rules2" using m(2) by (metis set_mset_mset)
  have s3: "set (triple_rules m) = set rules3" using m(4) by (metis set_mset_mset)
  have "0 < all_freq r \<and> all_freq r \<le> left_freq r
          \<and> (\<exists>c. confidence r = Inr c \<and> 0 < c \<and> c \<le> 1)"
    if "r \<in> set (pair_rules m) \<union> set (triple_rules m)" for r
  proof -
    from that s2 s3 m(3,5) obtain args where "sound_rule args r" by auto
    from sound_rule_confidence(1,2,5) [OF this] show ?thesis by blast
  qed
  then show ?thesis using m(1) by blast
qed

theorem mine_confidence_bounds_witness:
  "transaction [''a'', ''b'', ''c'']
   \<and> (\<exists>m. mine (replicate 100 [''a'', ''b'', ''c'']) = Inr m
        \<and> length (pair_rules m) = 6 \<and> length (triple_rules m) = 6
        \<and> list_all (\<lambda>r. 0 < all_freq r \<and> all_freq r \<le> left_freq r
                       \<and> confidence r = Inr 1)
             (pair_rules m @ triple_rules m))"
proof -
  let ?ls = "replicate 100 [''a'', ''b'', ''c'']"
  have t: "transaction [''a'', ''b'', ''c'']" by code_simp
  from mine_confidence_bounds [OF example_transactions] obtain m where
    m: "mine ?ls = Inr m"
      "\<forall>r \<in> set (pair_rules m) \<union> set (triple_rules m).
          0 < all_freq r \<and> all_freq r \<le> left_freq r
          \<and> (\<exists>c. confidence r = Inr c \<and> 0 < c \<and> c \<le> 1)" by blast
  have l2: "length (pair_rules m) = 6" and l3: "length (triple_rules m) = 6"
    using m(1) mine_example by auto
  have c1: "list_all (\<lambda>r. confidence r = Inr 1) (pair_rules m @ triple_rules m)"
    using m(1) mine_example by (auto simp: confidence_def)
  have "list_all (\<lambda>r. 0 < all_freq r \<and> all_freq r \<le> left_freq r)
      (pair_rules m @ triple_rules m)"
    using m(2) by (auto simp: list_all_iff)
  with c1 have "list_all (\<lambda>r. 0 < all_freq r \<and> all_freq r \<le> left_freq r
                       \<and> confidence r = Inr 1) (pair_rules m @ triple_rules m)"
    by (auto simp: list_all_iff)
  then show ?thesis using t m(1) l2 l3 by blast
qed

text \<open>
  The transactions that the pipeline reads are sorted lists of tokens; they are
  transactions in the sense above as soon as no item occurs twice on a line.
\<close>

lemma read_lines_transactions:
  assumes "\<forall>line \<in> set raw. distinct (str_split line)"
  shows "\<forall>l \<in> set (read_lines raw). transaction l"
proof
  fix l assume "l \<in> set (read_lines raw)"
  then obtain line where line: "line \<in> set raw" and l: "l = sort (str_split line)"
    by (auto simp: read_lines_def)
  have "distinct l" using assms line l by simp
  then have "sorted_wrt (<) l" using l by (simp add: strict_sorted_iff)
  moreover have "list_all token l"
    using str_split_tokens [of line] l by (simp add: list_all_iff)
  ultimately show "transaction l" by (simp add: transaction_def)
qed

lemma read_lines_example:
  "read_lines [''b a'', '' c  a b '', ''''] = [[''a'', ''b''], [''a'', ''b'', ''c''], []]"
  by code_simp

end
